theory Spec2Isabelle
  imports Main
begin

section \<open>The Dataseer batch client\<close>

text \<open>
  A shallow embedding of \<^verbatim>\<open>src/dataseer_client/client.py\<close>, class
  \<^verbatim>\<open>DataseerClient\<close>. The remote service, the file system, the working directory and
  the clock are the environment of the program; each is an explicit argument of the
  functions below. What the program does to the outside (HTTP requests, sleeps, printed
  lines, files written) is recorded as a list of events.
\<close>

subsection \<open>Data\<close>

text \<open>
  The keys of \<^verbatim>\<open>config.json\<close> that the client reads. \<^verbatim>\<open>sleep_time\<close> and
  \<^verbatim>\<open>timeout\<close> are only handed on (to \<^verbatim>\<open>time.sleep\<close> and to
  \<^verbatim>\<open>requests.post\<close>).
\<close>

record config =
  dataseer_server :: string
  dataseer_port :: string
  batch_size :: int
  sleep_time :: int
  timeout :: int

text \<open>The attributes that \<^verbatim>\<open>__init__\<close> sets on the client object.\<close>

record client =
  endpoint_isalive :: string
  endpoint_tei :: string
  endpoint_pdf :: string
  config :: config
  service_url :: string

text \<open>
  The three exception classes of \<^verbatim>\<open>requests\<close> that the workers name in their
  \<^verbatim>\<open>except\<close> clauses, and what one call of \<^verbatim>\<open>requests.get\<close> or
  \<^verbatim>\<open>requests.post\<close> does: it returns a response (status code and text) or raises.
\<close>

datatype request_exception = Timeout | TooManyRedirects | RequestException

datatype reply = Response int string | Raises request_exception

text \<open>The exceptions that leave a method of the client.\<close>

datatype exn =
    ServerUnavailableException
  | UnboundLocalError
  | OSError
  | ValueError
  | ZeroDivisionError

text \<open>
  The printed lines, by the \<^verbatim>\<open>print\<close> statement they come from and its arguments
  (the text itself is not formatted).
\<close>

datatype message =
    Connection_failed
  | Not_up_and_running int
  | Up_and_running
  | Total_process nat int
  | Found string
  | Files_in_batch nat
  | Skipping string
  | Processing_failed string int
  | Writing_failed string
  | Service_overloaded int
  | Server_error int string
  | Bad_request int
  | Response_content
  | Unexpected_error int
  | Request_timeout
  | Request_redirects
  | Request_failed

text \<open>
  \<open>Post url file gunzip\<close> is one multipart POST of the file to the URL; \<open>gunzip\<close> says
  that the file was opened with \<^verbatim>\<open>gzip.open\<close>. \<open>Batch fs\<close> is one call of
  \<^verbatim>\<open>process_batch\<close> on the input files \<open>fs\<close>.
\<close>

datatype event =
    Print message
  | Get string
  | Post string string bool
  | Sleep int
  | Write string string
  | Batch "string list"

text \<open>
  An outcome is the triple \<^verbatim>\<open>(file, status, text)\<close> that a worker returns;
  \<^verbatim>\<open>text\<close> is \<^verbatim>\<open>None\<close> or the response text.
\<close>

type_synonym outcome = "string \<times> int \<times> string option"

type_synonym task_run = "(exn + outcome) \<times> event list"

subsection \<open>Strings\<close>

text \<open>
  Python's \<^verbatim>\<open>str.endswith\<close>, \<^verbatim>\<open>str.startswith\<close>, \<^verbatim>\<open>str.split\<close> and
  \<^verbatim>\<open>str.join\<close> with a one-character separator, \<^verbatim>\<open>str.rstrip\<close> with a set of
  characters, and \<^verbatim>\<open>str.find\<close> of a character from a start index.
\<close>

definition endswith :: "string \<Rightarrow> string \<Rightarrow> bool" where
  "endswith s suf \<longleftrightarrow> length suf \<le> length s \<and> drop (length s - length suf) s = suf"

definition startswith :: "string \<Rightarrow> string \<Rightarrow> bool" where
  "startswith s pre \<longleftrightarrow> take (length pre) s = pre"

fun split_on :: "char \<Rightarrow> string \<Rightarrow> string list" where
  "split_on c [] = [[]]"
| "split_on c (x # xs) =
     (if x = c then [] # split_on c xs
      else (case split_on c xs of [] \<Rightarrow> [[x]] | y # ys \<Rightarrow> (x # y) # ys))"

fun sep_join :: "char \<Rightarrow> string list \<Rightarrow> string" where
  "sep_join c [] = []"
| "sep_join c [x] = x"
| "sep_join c (x # y # ys) = x @ c # sep_join c (y # ys)"

definition rstrip :: "(char \<Rightarrow> bool) \<Rightarrow> string \<Rightarrow> string" where
  "rstrip P s = rev (dropWhile P (rev s))"

fun find_from :: "char \<Rightarrow> nat \<Rightarrow> string \<Rightarrow> nat option" where
  "find_from c start [] = None"
| "find_from c 0 (x # xs) =
     (if x = c then Some 0 else map_option Suc (find_from c 0 xs))"
| "find_from c (Suc start) (x # xs) = map_option Suc (find_from c start xs)"

text \<open>The part before the first dot: \<^verbatim>\<open>name.split(".")[0]\<close>.\<close>

definition first_segment :: "string \<Rightarrow> string" where
  "first_segment name = (case split_on (CHR ''.'') name of [] \<Rightarrow> [] | x # xs \<Rightarrow> x)"

subsection \<open>Paths: \<^verbatim>\<open>os.path\<close> on POSIX and \<^verbatim>\<open>ntpath\<close>\<close>

text \<open>
  The client runs on POSIX here: \<^verbatim>\<open>os.path\<close> is \<^verbatim>\<open>posixpath\<close> and
  \<^verbatim>\<open>os.sep\<close> is the slash. The functions follow the Python sources of
  \<^verbatim>\<open>posixpath\<close>, \<^verbatim>\<open>genericpath\<close> and \<^verbatim>\<open>ntpath\<close> (CPython 3.11). \<open>cwd\<close> is what
  \<^verbatim>\<open>os.getcwd()\<close> returns.
\<close>

definition isabs :: "string \<Rightarrow> bool" where
  "isabs s \<longleftrightarrow> startswith s ''/''"

definition join :: "string \<Rightarrow> string \<Rightarrow> string" where
  "join a b =
     (if startswith b ''/'' then b
      else if a = [] \<or> endswith a ''/'' then a @ b
      else a @ ''/'' @ b)"

text \<open>\<^verbatim>\<open>join(*parts)\<close> for a non-empty list of parts.\<close>

definition join_all :: "string list \<Rightarrow> string" where
  "join_all parts = (case parts of [] \<Rightarrow> [] | a # p \<Rightarrow> foldl join a p)"

definition basename :: "string \<Rightarrow> string" where
  "basename p = rev (takeWhile (\<lambda>c. c \<noteq> CHR ''/'') (rev p))"

definition dirname :: "string \<Rightarrow> string" where
  "dirname p =
     (let head = take (length p - length (basename p)) p in
      if head \<noteq> [] \<and> head \<noteq> replicate (length head) (CHR ''/'')
      then rstrip (\<lambda>c. c = CHR ''/'') head else head)"

text \<open>
  One round of the loop of \<^verbatim>\<open>normpath\<close>; \<open>initial\<close> says that the path starts with
  a slash.
\<close>

definition normpath_step :: "bool \<Rightarrow> string list \<Rightarrow> string \<Rightarrow> string list" where
  "normpath_step initial new_comps cmp =
     (if cmp = [] \<or> cmp = ''.'' then new_comps
      else if cmp \<noteq> ''..'' \<or> (\<not> initial \<and> new_comps = [])
              \<or> (new_comps \<noteq> [] \<and> last new_comps = ''..'')
      then new_comps @ [cmp]
      else if new_comps \<noteq> [] then butlast new_comps
      else new_comps)"

definition normpath :: "string \<Rightarrow> string" where
  "normpath path =
     (if path = [] then ''.''
      else
        let initial_slashes =
              (if startswith path ''/''
               then (if startswith path ''//'' \<and> \<not> startswith path ''///'' then 2 else 1)
               else (0::nat));
            comps = foldl (normpath_step (initial_slashes \<noteq> 0)) [] (split_on (CHR ''/'') path);
            path' = replicate initial_slashes (CHR ''/'') @ sep_join (CHR ''/'') comps
        in if path' = [] then ''.'' else path')"

definition abspath :: "string \<Rightarrow> string \<Rightarrow> string" where
  "abspath cwd path = normpath (if \<not> isabs path then join cwd path else path)"

text \<open>
  \<^verbatim>\<open>commonprefix\<close> of two lists: Python takes the smaller and the larger of the two
  in the order of lists and returns the part of the smaller before the first index where
  they differ, which is their longest common prefix.
\<close>

fun commonprefix :: "'a list \<Rightarrow> 'a list \<Rightarrow> 'a list" where
  "commonprefix (x # xs) (y # ys) = (if x = y then x # commonprefix xs ys else [])"
| "commonprefix xs ys = []"

definition relpath :: "string \<Rightarrow> string \<Rightarrow> string \<Rightarrow> exn + string" where
  "relpath cwd path start =
     (if path = [] then Inl ValueError
      else
        let start_list = filter (\<lambda>x. x \<noteq> []) (split_on (CHR ''/'') (abspath cwd start));
            path_list = filter (\<lambda>x. x \<noteq> []) (split_on (CHR ''/'') (abspath cwd path));
            i = length (commonprefix start_list path_list);
            rel_list = replicate (length start_list - i) ''..'' @ drop i path_list
        in if rel_list = [] then Inr ''.'' else Inr (join_all rel_list))"

text \<open>
  \<^verbatim>\<open>ntpath\<close> takes the slash and the backslash as separators and splits a drive or a
  UNC share off the front of a path.
\<close>

definition backslash :: char where
  "backslash = CHR 0x5C"

definition nt_sep :: "char \<Rightarrow> bool" where
  "nt_sep ch \<longleftrightarrow> ch = CHR ''/'' \<or> ch = backslash"

definition ascii_upper :: "char \<Rightarrow> char" where
  "ascii_upper ch =
     (if (97::nat) \<le> of_char ch \<and> of_char ch \<le> (122::nat)
      then char_of (of_char ch - (32::nat)) else ch)"

definition nt_splitdrive :: "string \<Rightarrow> string \<times> string" where
  "nt_splitdrive p =
     (if length p \<ge> 2 then
        let normp = map (\<lambda>ch. if ch = CHR ''/'' then backslash else ch) p in
        if take 2 normp = [backslash, backslash] then
          let start =
                (if map ascii_upper (take 8 normp)
                    = [backslash, backslash, CHR ''?'', backslash,
                       CHR ''U'', CHR ''N'', CHR ''C'', backslash]
                 then 8 else 2)
          in (case find_from backslash start normp of
                None \<Rightarrow> (p, [])
              | Some index \<Rightarrow>
                  (case find_from backslash (index + 1) normp of
                     None \<Rightarrow> (p, [])
                   | Some index2 \<Rightarrow> (take index2 p, drop index2 p)))
        else if take 1 (drop 1 normp) = '':'' then (take 2 p, drop 2 p)
        else ([], p)
      else ([], p))"

definition nt_split :: "string \<Rightarrow> string \<times> string" where
  "nt_split p =
     (case nt_splitdrive p of
        (d, q) \<Rightarrow>
          let tail = rev (takeWhile (\<lambda>ch. \<not> nt_sep ch) (rev q));
              head = take (length q - length tail) q;
              head' = (if rstrip nt_sep head = [] then head else rstrip nt_sep head)
          in (d @ head', tail))"

definition nt_basename :: "string \<Rightarrow> string" where
  "nt_basename p = snd (nt_split p)"

definition nt_dirname :: "string \<Rightarrow> string" where
  "nt_dirname p = fst (nt_split p)"

subsection \<open>The output path: \<^verbatim>\<open>_output_file_name\<close>\<close>

text \<open>
  \<^verbatim>\<open>relpath\<close> raises \<^verbatim>\<open>ValueError\<close> on an empty path; the exception would leave
  \<^verbatim>\<open>_output_file_name\<close>.
\<close>

definition output_file_name :: "string \<Rightarrow> string \<Rightarrow> string \<Rightarrow> string option \<Rightarrow> exn + string" where
  "output_file_name cwd input_file input_path output =
     (case output of
        Some out \<Rightarrow>
          (case relpath cwd (abspath cwd input_file) input_path of
             Inl e \<Rightarrow> Inl e
           | Inr input_file_name \<Rightarrow>
               Inr (join out (first_segment (basename input_file_name) @ ''.dataseer.tei.xml'')))
      | None \<Rightarrow>
          (let input_file_name = nt_basename input_file in
           Inr (join (nt_dirname input_file)
                  (first_segment (basename input_file_name) @ ''.dataseer.tei.xml''))))"

subsection \<open>Start-up: \<^verbatim>\<open>__init__\<close> and \<^verbatim>\<open>_test_server_connection\<close>\<close>

text \<open>
  \<open>probe\<close> is what \<^verbatim>\<open>requests.get\<close> does on the liveness URL. The bare
  \<^verbatim>\<open>except:\<close> catches whatever it raises. The result is the exception raised, if any,
  and the events.
\<close>

definition test_server_connection :: "client \<Rightarrow> reply \<Rightarrow> exn option \<times> event list" where
  "test_server_connection c probe =
     (let the_url = service_url c @ endpoint_isalive c in
      case probe of
        Raises e \<Rightarrow> (Some ServerUnavailableException, [Get the_url, Print Connection_failed])
      | Response status text \<Rightarrow>
          (None, [Get the_url,
                  Print (if status \<noteq> 200 then Not_up_and_running status else Up_and_running)]))"

text \<open>
  The attributes as \<^verbatim>\<open>__init__\<close> sets them from the loaded configuration (reading and
  parsing the configuration file is not modelled: \<open>cfg\<close> is the dictionary that
  \<^verbatim>\<open>_load_config\<close> stored).
\<close>

definition new_client :: "config \<Rightarrow> client" where
  "new_client cfg =
     \<lparr>endpoint_isalive = ''isalive'',
      endpoint_tei = ''processDataseerTEI'',
      endpoint_pdf = ''processDataseerPDF'',
      config = cfg,
      service_url =
        ''http://'' @ dataseer_server cfg
          @ (if length (dataseer_port cfg) > 0 then '':'' @ dataseer_port cfg else [])
          @ ''/service/''\<rparr>"

text \<open>
  The constructor: the client object exists only when the probe did not raise.
\<close>

definition init :: "config \<Rightarrow> reply \<Rightarrow> (exn + client) \<times> event list" where
  "init cfg probe =
     (case test_server_connection (new_client cfg) probe of
        (Some e, evs) \<Rightarrow> (Inl e, evs)
      | (None, evs) \<Rightarrow> (Inr (new_client cfg), evs))"

text \<open>A configuration and a client for the concrete runs below.\<close>

definition example_config :: config where
  "example_config =
     \<lparr>dataseer_server = ''localhost'', dataseer_port = ''8060'',
      batch_size = 2, sleep_time = 5, timeout = 60\<rparr>"

definition example_client :: client where
  "example_client = new_client example_config"

subsection \<open>The workers: \<^verbatim>\<open>process_tei\<close> and \<^verbatim>\<open>process_pdf\<close>\<close>

text \<open>
  The service is scripted: the list holds its replies to the successive requests made
  for one file. A worker that needs a reply when the script is exhausted has no result
  (\<open>None\<close>); every other run ends with a returned triple (\<open>Inr\<close>) or an exception
  (\<open>Inl\<close>). \<open>can_open\<close> says which files \<^verbatim>\<open>open(file, 'rb')\<close> can open; the call is
  outside the \<^verbatim>\<open>try\<close>, so its \<^verbatim>\<open>OSError\<close> leaves the worker.

  Python runs the \<^verbatim>\<open>finally\<close> clause last, and its \<^verbatim>\<open>return\<close> replaces whatever
  the \<^verbatim>\<open>try\<close> block was about to do:
  \<^item> when \<^verbatim>\<open>requests.post\<close> raised, \<^verbatim>\<open>response\<close> was never assigned, so evaluating
    \<^verbatim>\<open>response.status_code\<close> in the \<^verbatim>\<open>finally\<close> clause raises
    \<^verbatim>\<open>UnboundLocalError\<close>, after the \<^verbatim>\<open>except\<close> clause has printed its line;
  \<^item> on 503 the recursive call is made and runs to its end, then the value it returned
    (or the exception it raised) is discarded and the triple of the 503 response is
    returned;
  \<^item> on 404 the argument \<^verbatim>\<open>response.status_code + url\<close> adds a number to a string;
    the \<^verbatim>\<open>TypeError\<close> is discarded in the same way, and nothing is printed.
\<close>

definition request_failure_message :: "request_exception \<Rightarrow> message" where
  "request_failure_message e =
     (case e of Timeout \<Rightarrow> Request_timeout
      | TooManyRedirects \<Rightarrow> Request_redirects
      | RequestException \<Rightarrow> Request_failed)"

text \<open>
  The branches of the status chain that do not retry: the events of the branch and the
  value of \<^verbatim>\<open>tei_data\<close> after it.
\<close>

definition status_branch :: "string \<Rightarrow> int \<Rightarrow> string \<Rightarrow> event list \<times> string option" where
  "status_branch file status text =
     (if status \<ge> 500 then ([Print (Server_error status file)], None)
      else if status = 404 then ([], None)
      else if status \<ge> 400 then ([Print (Bad_request status), Print Response_content], None)
      else if status = 200 then ([], Some text)
      else ([Print (Unexpected_error status)], None))"

fun process_tei :: "client \<Rightarrow> (string \<Rightarrow> bool) \<Rightarrow> string \<Rightarrow> string \<Rightarrow> reply list \<Rightarrow> task_run option" where
  "process_tei c can_open service tei_file [] =
     (if \<not> can_open tei_file then Some (Inl OSError, []) else None)"
| "process_tei c can_open service tei_file (Raises e # script) =
     (if \<not> can_open tei_file then Some (Inl OSError, [])
      else Some (Inl UnboundLocalError,
        [Post (service_url c @ endpoint_tei c) tei_file False,
         Print (request_failure_message e)]))"
| "process_tei c can_open service tei_file (Response status text # script) =
     (if \<not> can_open tei_file then Some (Inl OSError, [])
      else if status = 503 then
        (case process_tei c can_open service tei_file script of
           None \<Rightarrow> None
         | Some (r, evs) \<Rightarrow>
             Some (Inr (tei_file, status, None),
               [Post (service_url c @ endpoint_tei c) tei_file False,
                Print (Service_overloaded (sleep_time (config c))),
                Sleep (sleep_time (config c))] @ evs))
      else
        (case status_branch tei_file status text of
           (evs, tei_data) \<Rightarrow>
             Some (Inr (tei_file, status, tei_data),
               Post (service_url c @ endpoint_tei c) tei_file False # evs)))"

fun process_pdf :: "client \<Rightarrow> (string \<Rightarrow> bool) \<Rightarrow> string \<Rightarrow> string \<Rightarrow> reply list \<Rightarrow> task_run option" where
  "process_pdf c can_open service pdf_file [] =
     (if \<not> can_open pdf_file then Some (Inl OSError, []) else None)"
| "process_pdf c can_open service pdf_file (Raises e # script) =
     (if \<not> can_open pdf_file then Some (Inl OSError, [])
      else Some (Inl UnboundLocalError,
        [Post (service_url c @ endpoint_pdf c) pdf_file (endswith pdf_file ''.pdf.gz''),
         Print (request_failure_message e)]))"
| "process_pdf c can_open service pdf_file (Response status text # script) =
     (if \<not> can_open pdf_file then Some (Inl OSError, [])
      else if status = 503 then
        (case process_tei c can_open service pdf_file script of
           None \<Rightarrow> None
         | Some (r, evs) \<Rightarrow>
             Some (Inr (pdf_file, status, None),
               [Post (service_url c @ endpoint_pdf c) pdf_file (endswith pdf_file ''.pdf.gz''),
                Print (Service_overloaded (sleep_time (config c))),
                Sleep (sleep_time (config c))] @ evs))
      else
        (case status_branch pdf_file status text of
           (evs, tei_data) \<Rightarrow>
             Some (Inr (pdf_file, status, tei_data),
               Post (service_url c @ endpoint_pdf c) pdf_file (endswith pdf_file ''.pdf.gz'') # evs)))"

subsection \<open>The environment and the state\<close>

text \<open>
  What the run depends on and does not change:
  \<^item> \<open>cwd\<close>: the working directory, as \<^verbatim>\<open>os.getcwd()\<close> returns it;
  \<^item> \<open>replies f\<close>: the script of the service for the requests about the file \<open>f\<close>
    (workers share no state, so each task has its own exchange with the service);
  \<^item> \<open>readable\<close>: the files that \<^verbatim>\<open>open(file, 'rb')\<close> or \<^verbatim>\<open>gzip.open\<close> can open;
  \<^item> \<open>unwritable\<close>: the output paths at which creating the parent directories, opening
    or writing raises \<^verbatim>\<open>OSError\<close> (taken to leave the file as it was);
  \<^item> \<open>as_completed\<close>: the order in which
    \<^verbatim>\<open>concurrent.futures.as_completed\<close> yields the futures of a batch;
  \<^item> \<open>walk top\<close>: the triples \<^verbatim>\<open>(dirpath, dirnames, filenames)\<close> that
    \<^verbatim>\<open>os.walk(top)\<close> yields during the run;
  \<^item> \<open>runtime k\<close>: the value of \<^verbatim>\<open>round(time.time() - start_time, 3)\<close>, in
    milliseconds, read when \<^verbatim>\<open>nb_total\<close> is about to become \<open>k\<close>.

  The state is the regular files with their text (\<^verbatim>\<open>os.path.isfile\<close> is membership in
  the domain) and the events so far.
\<close>

record env =
  cwd :: string
  replies :: "string \<Rightarrow> reply list"
  readable :: "string \<Rightarrow> bool"
  unwritable :: "string \<Rightarrow> bool"
  as_completed :: "(exn + outcome) list \<Rightarrow> (exn + outcome) list"
  walk :: "string \<Rightarrow> (string \<times> string list \<times> string list) list"
  runtime :: "nat \<Rightarrow> int"

record world =
  files :: "string \<rightharpoonup> string"
  trace :: "event list"

definition emit :: "event list \<Rightarrow> world \<Rightarrow> world" where
  "emit evs w = w\<lparr>trace := trace w @ evs\<rparr>"

subsection \<open>One batch: \<^verbatim>\<open>process_batch\<close>\<close>

text \<open>
  The first loop, inside the \<^verbatim>\<open>with\<close> block: every input file that is not skipped is
  submitted to the pool, and leaving the block waits for all the submitted tasks. The
  result is the exception raised in the loop (if any), the results of the futures in the
  order of submission, and the events of the loop and of the workers. \<open>fs\<close> is the file
  system when the batch starts: nothing is written before the block is left.
\<close>

fun dispatch :: "client \<Rightarrow> env \<Rightarrow> (string \<rightharpoonup> string) \<Rightarrow> string \<Rightarrow> string \<Rightarrow> string option
    \<Rightarrow> bool \<Rightarrow> string list \<Rightarrow> (exn option \<times> (exn + outcome) list \<times> event list) option" where
  "dispatch c env fs service input_path output force [] = Some (None, [], [])"
| "dispatch c env fs service input_path output force (input_file # input_files) =
     (case output_file_name (cwd env) input_file input_path output of
        Inl e \<Rightarrow> Some (Some e, [], [])
      | Inr filename \<Rightarrow>
          if \<not> force \<and> fs filename \<noteq> None then
            (case dispatch c env fs service input_path output force input_files of
               None \<Rightarrow> None
             | Some (ex, results, evs) \<Rightarrow> Some (ex, results, Print (Skipping filename) # evs))
          else
            (case (if service = endpoint_pdf c then process_pdf else process_tei)
                    c (readable env) service input_file (replies env input_file) of
               None \<Rightarrow> None
             | Some (r, task_evs) \<Rightarrow>
                 (case dispatch c env fs service input_path output force input_files of
                    None \<Rightarrow> None
                  | Some (ex, results, evs) \<Rightarrow> Some (ex, r # results, task_evs @ evs))))"

text \<open>
  The second loop: \<^verbatim>\<open>r.result()\<close> returns the triple of the worker or raises the
  exception that the worker raised, and nothing in the loop catches it.
\<close>

fun collect :: "env \<Rightarrow> string \<Rightarrow> string option \<Rightarrow> (exn + outcome) list \<Rightarrow> world
    \<Rightarrow> exn option \<times> world" where
  "collect env input_path output [] w = (None, w)"
| "collect env input_path output (Inl e # rs) w = (Some e, w)"
| "collect env input_path output (Inr (input_file, status, text) # rs) w =
     (case output_file_name (cwd env) input_file input_path output of
        Inl e \<Rightarrow> (Some e, w)
      | Inr filename \<Rightarrow>
          (case text of
             None \<Rightarrow>
               collect env input_path output rs
                 (emit [Print (Processing_failed input_file status)] w)
           | Some t \<Rightarrow>
               if unwritable env filename then
                 collect env input_path output rs (emit [Print (Writing_failed filename)] w)
               else
                 collect env input_path output rs
                   (emit [Write filename t] (w\<lparr>files := (files w)(filename \<mapsto> t)\<rparr>))))"

text \<open>
  \<^verbatim>\<open>ProcessPoolExecutor(max_workers=n)\<close> raises \<^verbatim>\<open>ValueError\<close> when \<open>n\<close> is not
  positive. The result is \<open>None\<close> when a worker of the batch has no result.
\<close>

definition process_batch :: "client \<Rightarrow> env \<Rightarrow> world \<Rightarrow> string \<Rightarrow> string list \<Rightarrow> string
    \<Rightarrow> string option \<Rightarrow> int \<Rightarrow> bool \<Rightarrow> bool \<Rightarrow> (exn option \<times> world) option" where
  "process_batch c env w service input_files input_path output n force verbose =
     (let w1 = emit (Batch input_files
                 # (if verbose then [Print (Files_in_batch (length input_files))] else [])) w
      in if n \<le> 0 then Some (Some ValueError, w1)
         else
           (case dispatch c env (files w) service input_path output force input_files of
              None \<Rightarrow> None
            | Some (ex, results, evs) \<Rightarrow>
                (case ex of
                   Some e \<Rightarrow> Some (Some e, emit evs w1)
                 | None \<Rightarrow>
                     Some (collect env input_path output (as_completed env results)
                             (emit evs w1)))))"

subsection \<open>The run: \<^verbatim>\<open>process\<close>\<close>

text \<open>The test on the file name in the loop over the directory tree.\<close>

definition matches_service :: "string \<Rightarrow> string \<Rightarrow> bool" where
  "matches_service service filename \<longleftrightarrow>
     (service = ''processDataseerPDF''
        \<and> (endswith filename ''.pdf.gz'' \<or> endswith filename ''.pdf''))
     \<or> (service = ''processDataseerTEI'' \<and> endswith filename ''.tei.xml'')"

text \<open>
  The two nested loops run over the pairs (directory, file name) in the order of the
  walk.
\<close>

definition walk_pairs :: "(string \<times> string list \<times> string list) list \<Rightarrow> (string \<times> string) list" where
  "walk_pairs triples =
     concat (map (\<lambda>(dirpath, dirnames, filenames). map (\<lambda>filename. (dirpath, filename)) filenames)
               triples)"

text \<open>
  The loop, with its variables \<^verbatim>\<open>input_files\<close> and \<^verbatim>\<open>nb_total\<close>, and the last batch
  after it. The rate \<^verbatim>\<open>nb_total/runtime\<close> divides by the rounded runtime.
\<close>

fun process_loop :: "client \<Rightarrow> env \<Rightarrow> string \<Rightarrow> string \<Rightarrow> string option \<Rightarrow> int \<Rightarrow> bool \<Rightarrow> bool
    \<Rightarrow> (string \<times> string) list \<Rightarrow> string list \<Rightarrow> nat \<Rightarrow> world \<Rightarrow> (exn option \<times> world) option" where
  "process_loop c env service input_path output n force verbose [] input_files nb_total w =
     (if length input_files > 0
      then process_batch c env w service input_files input_path output n force verbose
      else Some (None, w))"
| "process_loop c env service input_path output n force verbose ((dirpath, filename) # rest)
       input_files nb_total w =
     (if matches_service service filename then
        let w1 = (if verbose then emit [Print (Found filename)] w else w);
            input_files1 = input_files @ [dirpath @ ''/'' @ filename]
        in if int (length input_files1) = batch_size (config c) then
             (case process_batch c env w1 service input_files1 input_path output n force verbose of
                None \<Rightarrow> None
              | Some (Some e, w2) \<Rightarrow> Some (Some e, w2)
              | Some (None, w2) \<Rightarrow>
                  let nb_total1 = nb_total + length input_files1 in
                  if runtime env nb_total1 = 0 then Some (Some ZeroDivisionError, w2)
                  else process_loop c env service input_path output n force verbose rest []
                         nb_total1
                         (emit [Print (Total_process nb_total1 (runtime env nb_total1))] w2))
           else process_loop c env service input_path output n force verbose rest
                  input_files1 nb_total w1
      else process_loop c env service input_path output n force verbose rest
             input_files nb_total w)"

text \<open>
  \<^verbatim>\<open>process(self, service, input_path, output=None, n=10, force=True, verbose=False)\<close>:
  an argument that the caller leaves out is \<open>None\<close> here and takes its default.
\<close>

definition process :: "client \<Rightarrow> env \<Rightarrow> world \<Rightarrow> string \<Rightarrow> string \<Rightarrow> string option \<Rightarrow> int option
    \<Rightarrow> bool option \<Rightarrow> bool option \<Rightarrow> (exn option \<times> world) option" where
  "process c env w service input_path output n force verbose =
     process_loop c env service input_path output
       (case n of None \<Rightarrow> 10 | Some k \<Rightarrow> k)
       (case force of None \<Rightarrow> True | Some b \<Rightarrow> b)
       (case verbose of None \<Rightarrow> False | Some b \<Rightarrow> b)
       (walk_pairs (walk env input_path)) [] 0
       (emit [Print (Total_process 0 0)] w)"

subsection \<open>Reading the trace\<close>

text \<open>
  The input files of the calls of \<^verbatim>\<open>process_batch\<close>, the files posted to the service and
  the pairs (path, text) written, each in the order of the trace; and the files of a walk
  that pass the test of \<^verbatim>\<open>process\<close> for the service, as the paths that the loop builds.
\<close>

fun batch_of :: "event \<Rightarrow> string list list" where
  "batch_of (Batch fs) = [fs]"
| "batch_of ev = []"

fun post_of :: "event \<Rightarrow> string list" where
  "post_of (Post url file gunzip) = [file]"
| "post_of ev = []"

fun write_of :: "event \<Rightarrow> (string \<times> string) list" where
  "write_of (Write path text) = [(path, text)]"
| "write_of ev = []"

definition batches :: "event list \<Rightarrow> string list list" where
  "batches evs = concat (map batch_of evs)"

definition posted :: "event list \<Rightarrow> string list" where
  "posted evs = concat (map post_of evs)"

definition written :: "event list \<Rightarrow> (string \<times> string) list" where
  "written evs = concat (map write_of evs)"

definition matching_files :: "string \<Rightarrow> (string \<times> string list \<times> string list) list \<Rightarrow> string list" where
  "matching_files service triples =
     map (\<lambda>(dirpath, filename). dirpath @ ''/'' @ filename)
       (filter (\<lambda>(dirpath, filename). matches_service service filename) (walk_pairs triples))"

subsection \<open>Files under the input root\<close>

text \<open>
  The name of a directory entry: not empty, without a slash, and neither \<open>.\<close> nor
  \<open>..\<close> (\<^verbatim>\<open>os.walk\<close> lists neither).
\<close>

definition plain_name :: "string \<Rightarrow> bool" where
  "plain_name x \<longleftrightarrow> x \<noteq> [] \<and> CHR ''/'' \<notin> set x \<and> x \<noteq> ''.'' \<and> x \<noteq> ''..''"

text \<open>
  The path that the loops of \<^verbatim>\<open>process\<close> build for the file \<open>name\<close> found in the
  directory reached from the root through the sub-directories \<open>ds\<close>: \<^verbatim>\<open>os.walk\<close> forms
  each \<^verbatim>\<open>dirpath\<close> with \<^verbatim>\<open>join(top, d)\<close>, and \<^verbatim>\<open>process\<close> appends the file name with
  \<^verbatim>\<open>os.sep.join([dirpath, filename])\<close>.
\<close>

definition walked_file :: "string \<Rightarrow> string list \<Rightarrow> string \<Rightarrow> string" where
  "walked_file input_path ds name = foldl join input_path ds @ ''/'' @ name"

subsection \<open>Concrete environments\<close>

text \<open>
  Three PDF files in one directory; the request for the first one times out, the others
  are answered with 200. The futures complete in the order of submission.
\<close>

definition failing_env :: env where
  "failing_env =
     \<lparr>cwd = ''/home/user'',
      replies = (\<lambda>f. if f = ''in/a.pdf'' then [Raises Timeout] else [Response 200 ''<TEI/>'']),
      readable = (\<lambda>f. True),
      unwritable = (\<lambda>p. False),
      as_completed = (\<lambda>rs. rs),
      walk = (\<lambda>top. if top = ''in''
                then [(''in'', [], [''a.pdf'', ''b.pdf'', ''c.pdf''])] else []),
      runtime = (\<lambda>k. 1000)\<rparr>"

text \<open>
  Three PDF files and a text file in two directories; every request is answered with
  200.
\<close>

definition quiet_env :: env where
  "quiet_env =
     \<lparr>cwd = ''/home/user'',
      replies = (\<lambda>f. [Response 200 (''<TEI>'' @ f @ ''</TEI>'')]),
      readable = (\<lambda>f. True),
      unwritable = (\<lambda>p. False),
      as_completed = (\<lambda>rs. rs),
      walk = (\<lambda>top. if top = ''in''
                then [(''in'', [''sub''], [''a.pdf'', ''notes.txt'', ''b.pdf'']),
                      (''in/sub'', [], [''c.pdf.gz''])]
                else []),
      runtime = (\<lambda>k. 1500)\<rparr>"

text \<open>
  Two PDF files of the same name, one in the input root and one in a sub-directory; every
  request is answered with 200.
\<close>

definition colliding_env :: env where
  "colliding_env =
     \<lparr>cwd = ''/home/user'',
      replies = (\<lambda>f. [Response 200 (''<TEI>'' @ f @ ''</TEI>'')]),
      readable = (\<lambda>f. True),
      unwritable = (\<lambda>p. False),
      as_completed = (\<lambda>rs. rs),
      walk = (\<lambda>top. if top = ''in''
                then [(''in'', [''sub''], [''a.pdf'']), (''in/sub'', [], [''a.pdf''])]
                else []),
      runtime = (\<lambda>k. 1500)\<rparr>"

definition empty_world :: world where
  "empty_world = \<lparr>files = Map.empty, trace = []\<rparr>"

text \<open>A file system where the output for \<open>in/a.pdf\<close> exists already.\<close>

definition old_world :: world where
  "old_world = \<lparr>files = [''in/a.dataseer.tei.xml'' \<mapsto> ''old''], trace = []\<rparr>"

section \<open>Properties\<close>

subsection \<open>Splitting, joining and normalising paths\<close>

text \<open>
  Facts about the string and path functions, up to the two results on the output path:
  what \<^verbatim>\<open>_output_file_name\<close> returns for a file under the input root when an output
  root is given, and when none is given.
\<close>

lemma split_on_nonempty: "split_on c s \<noteq> []"
  by (induction s) (auto split: list.splits)

lemma split_on_free: "c \<notin> set s \<Longrightarrow> split_on c s = [s]"
  by (induction s) auto

lemma split_on_append: "split_on c (a @ c # b) = split_on c a @ split_on c b"
proof (induction a)
  case Nil
  show ?case by simp
next
  case (Cons x a)
  obtain y ys where y: "split_on c a = y # ys"
    using split_on_nonempty [of c a] by (cases "split_on c a") auto
  with Cons show ?case by simp
qed

lemma split_on_parts: "x \<in> set (split_on c s) \<Longrightarrow> c \<notin> set x"
proof (induction s arbitrary: x)
  case Nil
  then show ?case by simp
next
  case (Cons a s)
  obtain y ys where y: "split_on c s = y # ys"
    using split_on_nonempty [of c s] by (cases "split_on c s") auto
  show ?case
  proof (cases "a = c")
    case True
    with Cons show ?thesis by auto
  next
    case False
    with Cons.prems y have "x = a # y \<or> x \<in> set ys" by auto
    with Cons.IH y False show ?thesis by auto
  qed
qed

lemma split_on_sep_join:
  "xs \<noteq> [] \<Longrightarrow> (\<And>x. x \<in> set xs \<Longrightarrow> c \<notin> set x) \<Longrightarrow> split_on c (sep_join c xs) = xs"
proof (induction c xs rule: sep_join.induct)
  case (1 c)
  then show ?case by simp
next
  case (2 c x)
  then show ?case by (simp add: split_on_free)
next
  case (3 c x y ys)
  have "split_on c (x @ c # sep_join c (y # ys)) = split_on c x @ split_on c (sep_join c (y # ys))"
    by (rule split_on_append)
  moreover have "split_on c x = [x]" using 3(3) by (simp add: split_on_free)
  moreover have "split_on c (sep_join c (y # ys)) = y # ys" using 3 by simp
  ultimately show ?case by simp
qed

lemma normpath_step_plain: "plain_name x \<Longrightarrow> normpath_step i cs x = cs @ [x]"
  by (simp add: normpath_step_def plain_name_def)

lemma normpath_fold_plain:
  "(\<And>x. x \<in> set xs \<Longrightarrow> plain_name x) \<Longrightarrow> foldl (normpath_step i) cs xs = cs @ xs"
  by (induction xs arbitrary: cs) (simp_all add: normpath_step_plain)

lemma normpath_step_keeps:
  assumes "\<And>x. x \<in> set cs \<Longrightarrow> plain_name x" and "CHR ''/'' \<notin> set y"
  shows "x \<in> set (normpath_step True cs y) \<Longrightarrow> plain_name x"
  using assms
  by (auto simp: normpath_step_def plain_name_def split: if_splits dest: in_set_butlastD)

lemma normpath_fold_keeps:
  "(\<And>x. x \<in> set cs \<Longrightarrow> plain_name x) \<Longrightarrow> (\<And>y. y \<in> set ys \<Longrightarrow> CHR ''/'' \<notin> set y)
    \<Longrightarrow> x \<in> set (foldl (normpath_step True) cs ys) \<Longrightarrow> plain_name x"
proof (induction ys arbitrary: cs)
  case Nil
  then show ?case by simp
next
  case (Cons y ys)
  show ?case
  proof (rule Cons.IH [of "normpath_step True cs y"])
    fix z assume "z \<in> set (normpath_step True cs y)"
    then show "plain_name z"
      using normpath_step_keeps [of cs y z] Cons.prems(1,2) by simp
  next
    fix z assume "z \<in> set ys" then show "CHR ''/'' \<notin> set z" using Cons.prems(2) by simp
  next
    show "x \<in> set (foldl (normpath_step True) (normpath_step True cs y) ys)"
      using Cons.prems(3) by simp
  qed
qed

lemma startswith_slash: "startswith s ''/'' \<longleftrightarrow> (\<exists>t. s = CHR ''/'' # t)"
  by (cases s) (auto simp: startswith_def)

lemma endswith_slash: "endswith s ''/'' \<longleftrightarrow> (\<exists>t. s = t @ ''/'')"
proof
  assume e: "endswith s ''/''"
  then have "s = take (length s - 1) s @ drop (length s - 1) s" by simp
  with e have "s = take (length s - 1) s @ ''/''" by (simp add: endswith_def)
  then show "\<exists>t. s = t @ ''/''" by blast
next
  assume "\<exists>t. s = t @ ''/''"
  then show "endswith s ''/''" by (auto simp: endswith_def)
qed

lemma normpath_absolute:
  assumes "startswith s ''/''"
  shows "\<exists>k. 1 \<le> k \<and> normpath s
           = replicate k (CHR ''/'') @ sep_join (CHR ''/'')
               (foldl (normpath_step True) [] (split_on (CHR ''/'') s))"
proof -
  from assms have ne: "s \<noteq> []" by (auto simp: startswith_slash)
  show ?thesis
  proof (cases "startswith s ''//'' \<and> \<not> startswith s ''///''")
    case True
    with assms ne have "normpath s = replicate 2 (CHR ''/'') @ sep_join (CHR ''/'')
               (foldl (normpath_step True) [] (split_on (CHR ''/'') s))"
      by (simp add: normpath_def Let_def)
    then show ?thesis by (intro exI [of _ 2]) simp
  next
    case False
    with assms ne have "normpath s = replicate 1 (CHR ''/'') @ sep_join (CHR ''/'')
               (foldl (normpath_step True) [] (split_on (CHR ''/'') s))"
      by (auto simp add: normpath_def Let_def)
    then show ?thesis by (intro exI [of _ 1]) simp
  qed
qed

lemma normpath_nonempty: "normpath s \<noteq> []"
  by (simp add: normpath_def Let_def)

lemma plain_comps_of_string:
  assumes "\<And>x. x \<in> set cs \<Longrightarrow> plain_name x"
  shows "filter (\<lambda>x. x \<noteq> []) (split_on (CHR ''/'') (replicate k (CHR ''/'') @ sep_join (CHR ''/'') cs)) = cs"
proof (induction k)
  case 0
  show ?case
  proof (cases "cs = []")
    case True
    then show ?thesis by simp
  next
    case False
    have "split_on (CHR ''/'') (sep_join (CHR ''/'') cs) = cs"
      using False assms by (intro split_on_sep_join) (auto simp: plain_name_def)
    moreover have "filter (\<lambda>x. x \<noteq> []) cs = cs"
      using assms by (auto simp: plain_name_def filter_id_conv)
    ultimately show ?thesis by simp
  qed
next
  case (Suc k)
  then show ?case by simp
qed

lemma normpath_fold_filter:
  "foldl (normpath_step i) cs xs = foldl (normpath_step i) cs (filter (\<lambda>x. x \<noteq> []) xs)"
  by (induction xs arbitrary: cs) (simp_all add: normpath_step_def)

lemma abs_comps_plain:
  "x \<in> set (foldl (normpath_step True) [] (split_on (CHR ''/'') s)) \<Longrightarrow> plain_name x"
  by (rule normpath_fold_keeps [of "[]" "split_on (CHR ''/'') s"]) (auto dest: split_on_parts)

lemma comps_of_normpath:
  assumes "startswith s ''/''"
  shows "filter (\<lambda>x. x \<noteq> []) (split_on (CHR ''/'') (normpath s))
           = foldl (normpath_step True) [] (split_on (CHR ''/'') s)"
proof -
  obtain k where "normpath s = replicate k (CHR ''/'') @ sep_join (CHR ''/'')
               (foldl (normpath_step True) [] (split_on (CHR ''/'') s))"
    using normpath_absolute [OF assms] by blast
  then show ?thesis
    using plain_comps_of_string [of "foldl (normpath_step True) [] (split_on (CHR ''/'') s)" k]
      abs_comps_plain [of _ s] by simp
qed

lemma normpath_absolute_starts:
  assumes "startswith s ''/''"
  shows "startswith (normpath s) ''/''"
proof -
  obtain k where "1 \<le> k" and "normpath s = replicate k (CHR ''/'') @ sep_join (CHR ''/'')
               (foldl (normpath_step True) [] (split_on (CHR ''/'') s))"
    using normpath_absolute [OF assms] by blast
  then show ?thesis by (cases k) (auto simp: startswith_slash)
qed

lemma comps_of_normpath_twice:
  assumes "startswith s ''/''"
  shows "filter (\<lambda>x. x \<noteq> []) (split_on (CHR ''/'') (normpath (normpath s)))
           = foldl (normpath_step True) [] (split_on (CHR ''/'') s)"
proof -
  let ?g = "foldl (normpath_step True) [] (split_on (CHR ''/'') s)"
  have "filter (\<lambda>x. x \<noteq> []) (split_on (CHR ''/'') (normpath (normpath s)))
          = foldl (normpath_step True) [] (split_on (CHR ''/'') (normpath s))"
    by (rule comps_of_normpath [OF normpath_absolute_starts [OF assms]])
  also have "\<dots> = foldl (normpath_step True) []
                     (filter (\<lambda>x. x \<noteq> []) (split_on (CHR ''/'') (normpath s)))"
    by (rule normpath_fold_filter)
  also have "\<dots> = foldl (normpath_step True) [] ?g"
    by (simp add: comps_of_normpath [OF assms])
  also have "\<dots> = [] @ ?g"
    by (rule normpath_fold_plain) (rule abs_comps_plain)
  finally show ?thesis by simp
qed

lemma plain_not_abs: "plain_name d \<Longrightarrow> \<not> startswith d ''/''"
  by (auto simp: plain_name_def startswith_slash)

lemma fold_split_join:
  assumes "s \<noteq> []" and "\<not> startswith t ''/''"
  shows "foldl (normpath_step i) cs (split_on (CHR ''/'') (join s t))
           = foldl (normpath_step i) (foldl (normpath_step i) cs (split_on (CHR ''/'') s))
               (split_on (CHR ''/'') t)"
proof (cases "endswith s ''/''")
  case True
  then obtain s' where s': "s = s' @ ''/''" by (auto simp: endswith_slash)
  have "join s t = s' @ CHR ''/'' # t" using assms True s' by (simp add: join_def)
  moreover have "split_on (CHR ''/'') s = split_on (CHR ''/'') s' @ [[]]"
    using split_on_append [of "CHR ''/''" s' "[]"] s' by simp
  ultimately show ?thesis by (simp add: split_on_append normpath_step_def)
next
  case False
  then have "join s t = s @ CHR ''/'' # t" using assms by (simp add: join_def)
  then show ?thesis by (simp add: split_on_append)
qed

lemma join_plain_nonempty: "s \<noteq> [] \<Longrightarrow> join s d \<noteq> []"
  by (auto simp: join_def startswith_slash)

lemma fold_split_walk:
  assumes "\<And>d. d \<in> set ds \<Longrightarrow> plain_name d" and "s \<noteq> []"
  shows "foldl join s ds \<noteq> [] \<and>
         foldl (normpath_step i) cs (split_on (CHR ''/'') (foldl join s ds))
           = foldl (normpath_step i) cs (split_on (CHR ''/'') s) @ ds"
  using assms
proof (induction ds arbitrary: s)
  case Nil
  then show ?case by simp
next
  case (Cons d ds)
  have d: "plain_name d" using Cons.prems(1) by simp
  have "foldl (normpath_step i) cs (split_on (CHR ''/'') (join s d))
          = foldl (normpath_step i) (foldl (normpath_step i) cs (split_on (CHR ''/'') s))
               (split_on (CHR ''/'') d)"
    using Cons.prems(2) d by (intro fold_split_join) (simp_all add: plain_not_abs)
  moreover have "split_on (CHR ''/'') d = [d]"
    using d by (simp add: split_on_free plain_name_def)
  ultimately have step: "foldl (normpath_step i) cs (split_on (CHR ''/'') (join s d))
          = foldl (normpath_step i) cs (split_on (CHR ''/'') s) @ [d]"
    using d by (simp add: normpath_step_plain)
  have "foldl join (join s d) ds \<noteq> [] \<and>
         foldl (normpath_step i) cs (split_on (CHR ''/'') (foldl join (join s d) ds))
           = foldl (normpath_step i) cs (split_on (CHR ''/'') (join s d)) @ ds"
    using Cons.prems by (intro Cons.IH) (simp_all add: join_plain_nonempty)
  with step show ?case by simp
qed

lemma walked_file_comps:
  assumes "\<And>d. d \<in> set ds \<Longrightarrow> plain_name d" and "plain_name name" and "s \<noteq> []"
  shows "foldl (normpath_step i) cs (split_on (CHR ''/'') (walked_file s ds name))
           = foldl (normpath_step i) cs (split_on (CHR ''/'') s) @ ds @ [name]"
proof -
  have "split_on (CHR ''/'') name = [name]"
    using assms(2) by (simp add: split_on_free plain_name_def)
  then show ?thesis
    using fold_split_walk [where ds = ds and s = s and i = i and cs = cs] assms
    by (simp add: walked_file_def split_on_append normpath_step_plain)
qed

lemma endswith_last: "endswith s ''/'' \<longleftrightarrow> s \<noteq> [] \<and> last s = CHR ''/''"
  by (cases s rule: rev_cases) (auto simp: endswith_def)

lemma startswith_hd: "startswith s ''/'' \<longleftrightarrow> s \<noteq> [] \<and> hd s = CHR ''/''"
  by (cases s) (auto simp: startswith_def)

lemma join_assoc_plain:
  assumes "b \<noteq> []" and "\<not> startswith d ''/''"
  shows "join a (join b d) = join (join a b) d"
proof (cases "startswith b ''/''")
  case True
  then have "startswith (join b d) ''/''"
    using assms by (auto simp: join_def startswith_hd)
  then have "join a (join b d) = join b d" by (simp add: join_def)
  moreover have "join a b = b" using True by (simp add: join_def)
  ultimately show ?thesis by simp
next
  case False
  define e where "e = (if endswith b ''/'' then d else ''/'' @ d)"
  have bd: "join b d = b @ e" using assms by (simp add: join_def e_def)
  define a' where "a' = (if a = [] \<or> endswith a ''/'' then a else a @ ''/'')"
  have ab: "join a b = a' @ b" using False by (simp add: join_def a'_def)
  have "\<not> startswith (b @ e) ''/''" using False assms(1) by (simp add: startswith_hd)
  then have "join a (b @ e) = a' @ b @ e" by (simp add: join_def a'_def)
  moreover have "join (a' @ b) d = (a' @ b) @ e"
    using assms by (simp add: join_def e_def endswith_last)
  ultimately show ?thesis using bd ab by simp
qed

lemma join_starts:
  assumes "b \<noteq> []" and "\<not> startswith d ''/''"
  shows "startswith (join b d) ''/'' \<longleftrightarrow> startswith b ''/''"
  using assms by (auto simp: join_def startswith_hd)

lemma join_append: "b \<noteq> [] \<Longrightarrow> join a (b @ x) = join a b @ x"
  by (simp add: join_def startswith_hd)

lemma abs_walked_file:
  assumes "\<And>d. d \<in> set ds \<Longrightarrow> plain_name d" and "ip \<noteq> []"
  shows "(if \<not> isabs (walked_file ip ds name) then join wd (walked_file ip ds name)
          else walked_file ip ds name)
         = walked_file (if \<not> isabs ip then join wd ip else ip) ds name"
  using assms
proof (induction ds arbitrary: ip)
  case Nil
  then show ?case
    by (simp add: walked_file_def isabs_def join_append startswith_hd)
next
  case (Cons d ds)
  have d: "\<not> startswith d ''/''" using Cons.prems(1) by (simp add: plain_not_abs)
  have w: "\<And>p. walked_file p (d # ds) name = walked_file (join p d) ds name"
    by (simp add: walked_file_def)
  have "(if \<not> isabs (join ip d) then join wd (join ip d) else join ip d)
          = join (if \<not> isabs ip then join wd ip else ip) d"
    using Cons.prems(2) d by (simp add: isabs_def join_starts join_assoc_plain)
  moreover have "(if \<not> isabs (walked_file (join ip d) ds name)
          then join wd (walked_file (join ip d) ds name)
          else walked_file (join ip d) ds name)
         = walked_file (if \<not> isabs (join ip d) then join wd (join ip d) else join ip d) ds name"
    using Cons.prems by (intro Cons.IH) (simp_all add: join_plain_nonempty)
  ultimately show ?case by (simp only: w)
qed

lemma abs_choice_absolute:
  assumes "startswith wd ''/''"
  shows "startswith (if \<not> isabs ip then join wd ip else ip) ''/''"
  using assms by (auto simp: isabs_def join_def startswith_hd)

lemma walked_file_starts:
  assumes "\<And>d. d \<in> set ds \<Longrightarrow> plain_name d" and "startswith a ''/''"
  shows "startswith (walked_file a ds name) ''/''"
proof -
  have "startswith (foldl join a ds) ''/''"
    using assms
  proof (induction ds arbitrary: a)
    case Nil
    then show ?case by simp
  next
    case (Cons d ds)
    have "a \<noteq> []" using Cons.prems(2) by (simp add: startswith_hd)
    then have "startswith (join a d) ''/''"
      using Cons.prems join_starts [of a d] by (simp add: plain_not_abs)
    then show ?case using Cons by simp
  qed
  then show ?thesis by (simp add: walked_file_def startswith_hd)
qed

lemma commonprefix_append: "commonprefix xs (xs @ ys) = xs"
  by (induction xs) simp_all

lemma relpath_walked_file:
  assumes wd: "startswith wd ''/''" and ip: "input_path \<noteq> []"
    and ds: "\<And>d. d \<in> set ds \<Longrightarrow> plain_name d" and name: "plain_name name"
  shows "relpath wd (abspath wd (walked_file input_path ds name)) input_path
           = Inr (join_all (ds @ [name]))"
proof -
  let ?A = "if \<not> isabs input_path then join wd input_path else input_path"
  let ?B = "walked_file ?A ds name"
  let ?g = "\<lambda>s. foldl (normpath_step True) [] (split_on (CHR ''/'') s)"
  have A_abs: "startswith ?A ''/''" by (rule abs_choice_absolute [OF wd])
  then have A_ne: "?A \<noteq> []" by (auto simp: startswith_hd)
  have B_abs: "startswith ?B ''/''" by (rule walked_file_starts [OF ds A_abs])
  have P: "abspath wd (walked_file input_path ds name) = normpath ?B"
    unfolding abspath_def using abs_walked_file [where ds = ds and ip = input_path and name = name and wd = wd] ds ip by simp
  have P_abs: "isabs (normpath ?B)"
    using normpath_absolute_starts [OF B_abs] by (simp add: isabs_def)
  have path_list: "filter (\<lambda>x. x \<noteq> []) (split_on (CHR ''/'') (abspath wd (normpath ?B)))
                     = ?g ?A @ ds @ [name]"
    using P_abs comps_of_normpath_twice [OF B_abs] walked_file_comps [where ds = ds and name = name and s = "?A" and i = True and cs = "[]"]
      ds name A_ne
    by (simp add: abspath_def)
  have start_list: "filter (\<lambda>x. x \<noteq> []) (split_on (CHR ''/'') (abspath wd input_path)) = ?g ?A"
    unfolding abspath_def by (rule comps_of_normpath [OF A_abs])
  show ?thesis
    unfolding P relpath_def
    by (simp add: normpath_nonempty Let_def path_list start_list commonprefix_append
          del: split_on.simps)
qed

lemma basename_append:
  assumes "CHR ''/'' \<notin> set name" and "y = [] \<or> last y = CHR ''/''"
  shows "basename (y @ name) = name"
proof -
  have "takeWhile (\<lambda>c. c \<noteq> CHR ''/'') (rev name @ rev y)
          = rev name @ takeWhile (\<lambda>c. c \<noteq> CHR ''/'') (rev y)"
    using assms(1) by (intro takeWhile_append2) auto
  moreover have "takeWhile (\<lambda>c. c \<noteq> CHR ''/'') (rev y) = []"
    using assms(2) by (cases y rule: rev_cases) auto
  ultimately show ?thesis by (simp add: basename_def)
qed

lemma join_plain_shape:
  assumes "\<not> startswith x ''/''"
  shows "\<exists>y. join a x = y @ x \<and> (y = [] \<or> last y = CHR ''/'')"
proof (cases "a = [] \<or> endswith a ''/''")
  case True
  then have "join a x = a @ x \<and> (a = [] \<or> last a = CHR ''/'')"
    using assms by (auto simp: join_def endswith_last)
  then show ?thesis by blast
next
  case False
  then have "join a x = (a @ ''/'') @ x \<and> last (a @ ''/'') = CHR ''/''"
    using assms by (simp add: join_def)
  then show ?thesis by blast
qed

lemma basename_join:
  assumes "CHR ''/'' \<notin> set x"
  shows "basename (join a x) = x"
proof -
  have "\<not> startswith x ''/''" using assms by (auto simp: startswith_slash)
  then obtain y where "join a x = y @ x" and "y = [] \<or> last y = CHR ''/''"
    using join_plain_shape by blast
  then show ?thesis using basename_append [OF assms] by simp
qed

lemma basename_join_all:
  assumes "CHR ''/'' \<notin> set name"
  shows "basename (join_all (ds @ [name])) = name"
proof (cases ds)
  case Nil
  then show ?thesis using basename_append [OF assms, of "[]"] by (simp add: join_all_def)
next
  case (Cons d ds')
  then have "join_all (ds @ [name]) = join (foldl join d ds') name"
    by (simp add: join_all_def)
  then show ?thesis by (simp add: basename_join [OF assms])
qed

lemma first_segment_takeWhile: "first_segment name = takeWhile (\<lambda>ch. ch \<noteq> CHR ''.'') name"
proof -
  have "(case split_on c s of [] \<Rightarrow> [] | x # xs \<Rightarrow> x) = takeWhile (\<lambda>ch. ch \<noteq> c) s" for c s
    by (induction s) (auto split: list.splits)
  then show ?thesis by (simp add: first_segment_def)
qed

lemma output_name_no_slash:
  assumes "CHR ''/'' \<notin> set name"
  shows "CHR ''/'' \<notin> set (first_segment name @ ''.dataseer.tei.xml'')"
  using assms by (auto simp: first_segment_takeWhile dest: set_takeWhileD)

lemma output_file_name_total: "\<exists>p. output_file_name wd input_file input_path out = Inr p"
  by (cases out)
     (simp_all add: output_file_name_def relpath_def abspath_def normpath_nonempty Let_def)

lemma output_file_name_walked:
  assumes "startswith wd ''/''" and "input_path \<noteq> []"
    and "\<And>d. d \<in> set ds \<Longrightarrow> plain_name d" and "plain_name name"
  shows "output_file_name wd (walked_file input_path ds name) input_path (Some out)
           = Inr (join out (first_segment name @ ''.dataseer.tei.xml''))"
proof -
  have "CHR ''/'' \<notin> set name" using assms(4) by (simp add: plain_name_def)
  then have "basename (join_all (ds @ [name])) = name" by (rule basename_join_all)
  then show ?thesis
    using relpath_walked_file [OF assms] by (simp add: output_file_name_def)
qed

lemma nt_splitdrive_none:
  assumes "backslash \<notin> set p" and "\<not> startswith p ''//''" and "\<not> startswith (drop 1 p) '':''"
  shows "nt_splitdrive p = ([], p)"
proof (cases p)
  case Nil
  then show ?thesis by (simp add: nt_splitdrive_def)
next
  case (Cons a q)
  show ?thesis
  proof (cases q)
    case Nil
    with Cons show ?thesis by (simp add: nt_splitdrive_def)
  next
    case (Cons b r)
    with \<open>p = a # q\<close> assms show ?thesis
      by (auto simp: nt_splitdrive_def startswith_def backslash_def Let_def)
  qed
qed

lemma rstrip_cong: "(\<And>x. x \<in> set s \<Longrightarrow> P x = Q x) \<Longrightarrow> rstrip P s = rstrip Q s"
  unfolding rstrip_def by (rule arg_cong [where f = rev], rule dropWhile_cong) auto

lemma rstrip_empty: "rstrip P s = [] \<longleftrightarrow> (\<forall>x\<in>set s. P x)"
  by (auto simp: rstrip_def dropWhile_eq_Nil_conv)

lemma rstrip_last: "rstrip P s \<noteq> [] \<Longrightarrow> \<not> P (last (rstrip P s))"
proof -
  assume ne: "rstrip P s \<noteq> []"
  then have "dropWhile P (rev s) \<noteq> []" by (simp add: rstrip_def)
  then have "\<not> P (hd (dropWhile P (rev s)))" by (rule hd_dropWhile)
  moreover have "last (rstrip P s) = hd (dropWhile P (rev s))"
    using ne by (simp add: rstrip_def last_rev)
  ultimately show ?thesis by simp
qed

lemma rstrip_snoc: "r \<noteq> [] \<Longrightarrow> \<not> P (last r) \<Longrightarrow> P c \<Longrightarrow> rstrip P (r @ [c]) = r"
  by (cases r rule: rev_cases) (simp_all add: rstrip_def)

lemma all_slashes: "s = replicate (length s) c \<longleftrightarrow> (\<forall>x\<in>set s. x = c)"
  by (metis in_set_replicate replicate_length_same)

lemma nt_split_parts:
  assumes "nt_splitdrive p = ([], p)"
    and "rev (takeWhile (\<lambda>ch. \<not> nt_sep ch) (rev p)) = name"
    and "take (length p - length name) p = h"
    and "rstrip nt_sep h = r"
  shows "nt_split p = (if r = [] then h else r, name)"
proof -
  have "takeWhile (\<lambda>ch. \<not> nt_sep ch) (rev p) = rev name"
    using assms(2) by (metis rev_rev_ident)
  then show ?thesis
    using assms(1,3,4) by (simp add: nt_split_def Let_def)
qed

lemma nt_split_file:
  assumes "backslash \<notin> set (d @ ''/'' @ name)" and "CHR ''/'' \<notin> set name"
    and "\<not> startswith (d @ ''/'' @ name) ''//''"
    and "\<not> startswith (drop 1 (d @ ''/'' @ name)) '':''"
  shows "nt_split (d @ ''/'' @ name)
           = (if rstrip (\<lambda>c. c = CHR ''/'') (d @ ''/'') = [] then d @ ''/''
              else rstrip (\<lambda>c. c = CHR ''/'') (d @ ''/''), name)"
proof (rule nt_split_parts)
  show "nt_splitdrive (d @ ''/'' @ name) = ([], d @ ''/'' @ name)"
    by (rule nt_splitdrive_none [OF assms(1,3,4)])
next
  have "takeWhile (\<lambda>ch. \<not> nt_sep ch) (rev name @ rev (d @ ''/''))
          = rev name @ takeWhile (\<lambda>ch. \<not> nt_sep ch) (rev (d @ ''/''))"
    using assms(1,2) by (intro takeWhile_append2) (auto simp: nt_sep_def)
  then show "rev (takeWhile (\<lambda>ch. \<not> nt_sep ch) (rev (d @ ''/'' @ name))) = name"
    by (simp add: nt_sep_def)
next
  show "take (length (d @ ''/'' @ name) - length name) (d @ ''/'' @ name) = d @ ''/''"
    by simp
next
  show "rstrip nt_sep (d @ ''/'') = rstrip (\<lambda>c. c = CHR ''/'') (d @ ''/'')"
    using assms(1) by (intro rstrip_cong) (auto simp: nt_sep_def)
qed

lemma dirname_file:
  assumes "CHR ''/'' \<notin> set name"
  shows "dirname (d @ ''/'' @ name)
           = (if rstrip (\<lambda>c. c = CHR ''/'') (d @ ''/'') = [] then d @ ''/''
              else rstrip (\<lambda>c. c = CHR ''/'') (d @ ''/''))"
proof -
  have b: "basename ((d @ ''/'') @ name) = name"
    by (rule basename_append [OF assms]) simp
  have "d @ ''/'' = replicate (length (d @ ''/'')) (CHR ''/'')
          \<longleftrightarrow> rstrip (\<lambda>c. c = CHR ''/'') (d @ ''/'') = []"
    unfolding rstrip_empty by (rule all_slashes)
  then show ?thesis
    using b by (simp add: dirname_def Let_def)
qed

lemma dirname_basename_join:
  assumes "CHR ''/'' \<notin> set x"
    and "h = (if rstrip (\<lambda>c. c = CHR ''/'') (d @ ''/'') = [] then d @ ''/''
              else rstrip (\<lambda>c. c = CHR ''/'') (d @ ''/''))"
  shows "dirname (join h x) = h \<and> basename (join h x) = x"
proof (cases "rstrip (\<lambda>c. c = CHR ''/'') (d @ ''/'') = []")
  case True
  then have h: "h = d @ ''/''" using assms(2) by simp
  have nx: "\<not> startswith x ''/''" using assms(1) by (auto simp: startswith_slash)
  have j: "join (d @ ''/'') x = d @ ''/'' @ x" using nx by (simp add: join_def endswith_last)
  show ?thesis
    using dirname_file [OF assms(1), of d] basename_append [OF assms(1), of "d @ ''/''"] True
    by (simp add: j h)
next
  case False
  then have h: "h = rstrip (\<lambda>c. c = CHR ''/'') (d @ ''/'')" using assms(2) by simp
  have hne: "h \<noteq> []" using False h by simp
  have hl: "last h \<noteq> CHR ''/''" using rstrip_last [OF False] h by simp
  have nx: "\<not> startswith x ''/''" using assms(1) by (auto simp: startswith_slash)
  have j: "join h x = h @ ''/'' @ x" using hne hl nx by (simp add: join_def endswith_last)
  have "rstrip (\<lambda>c. c = CHR ''/'') (h @ ''/'') = h"
    using rstrip_snoc [of h "\<lambda>c. c = CHR ''/''" "CHR ''/''"] hne hl by simp
  then show ?thesis
    using dirname_file [OF assms(1), of h] basename_append [OF assms(1), of "h @ ''/''"] hne
    by (simp add: j)
qed

lemma output_file_name_beside:
  assumes "backslash \<notin> set (d @ ''/'' @ name)" and "CHR ''/'' \<notin> set name"
    and "\<not> startswith (d @ ''/'' @ name) ''//''"
    and "\<not> startswith (drop 1 (d @ ''/'' @ name)) '':''"
  shows "\<exists>p. output_file_name wd (d @ ''/'' @ name) input_path None = Inr p
           \<and> dirname p = dirname (d @ ''/'' @ name)
           \<and> basename p = first_segment name @ ''.dataseer.tei.xml''"
proof -
  let ?h = "if rstrip (\<lambda>c. c = CHR ''/'') (d @ ''/'') = [] then d @ ''/''
              else rstrip (\<lambda>c. c = CHR ''/'') (d @ ''/'')"
  let ?x = "first_segment name @ ''.dataseer.tei.xml''"
  have b: "basename name = name" using basename_append [OF assms(2), of "[]"] by simp
  have "output_file_name wd (d @ ''/'' @ name) input_path None = Inr (join ?h ?x)"
    unfolding output_file_name_def nt_basename_def nt_dirname_def nt_split_file [OF assms]
    by (simp add: b Let_def)
  moreover have "dirname (join ?h ?x) = ?h \<and> basename (join ?h ?x) = ?x"
    by (rule dirname_basename_join [OF output_name_no_slash [OF assms(2)]]) simp
  ultimately show ?thesis using dirname_file [OF assms(2), of d] by simp
qed

subsection \<open>Start-up\<close>

text \<open>
  C6. The constructor issues one GET to the liveness URL and no POST. It raises (and
  then it is \<^verbatim>\<open>ServerUnavailableException\<close>) exactly when the GET itself raised;
  when the probe is answered, whatever the status, the client is constructed, and a
  status other than 200 only prints the warning line.
\<close>

theorem probe_fatal_iff_transport_failure:
  "((\<exists>x. fst (init cfg probe) = Inl x) \<longleftrightarrow> (\<exists>e. probe = Raises e))
   \<and> init cfg (Raises e) =
       (Inl ServerUnavailableException,
        [Get (service_url (new_client cfg) @ ''isalive''), Print Connection_failed])
   \<and> init cfg (Response status text) =
       (Inr (new_client cfg),
        [Get (service_url (new_client cfg) @ ''isalive''),
         Print (if status \<noteq> 200 then Not_up_and_running status else Up_and_running)])"
  by (cases probe) (simp_all add: init_def test_server_connection_def new_client_def)

subsection \<open>The workers\<close>

text \<open>
  C5. A 404 response ends the task: the worker returns the triple (file, 404, None)
  after its single POST, without sleeping and without reading the rest of the script.
\<close>

theorem status_404_is_terminal:
  "can_open f \<Longrightarrow>
     process_pdf c can_open service f (Response 404 text # script) =
       Some (Inr (f, 404, None),
             [Post (service_url c @ endpoint_pdf c) f (endswith f ''.pdf.gz'')])
     \<and> process_tei c can_open service f (Response 404 text # script) =
       Some (Inr (f, 404, None), [Post (service_url c @ endpoint_tei c) f False])"
  by (simp add: status_branch_def)

theorem status_404_is_terminal_witness:
  "process_pdf example_client (\<lambda>f. True) ''processDataseerPDF'' ''in/a.pdf''
       [Response 404 ''not found'', Response 200 ''<TEI/>''] =
     Some (Inr (''in/a.pdf'', 404, None),
           [Post ''http://localhost:8060/service/processDataseerPDF'' ''in/a.pdf'' False])
   \<and> process_tei example_client (\<lambda>f. True) ''processDataseerTEI'' ''in/a.tei.xml''
       [Response 404 ''not found'', Response 200 ''<TEI/>''] =
     Some (Inr (''in/a.tei.xml'', 404, None),
           [Post ''http://localhost:8060/service/processDataseerTEI'' ''in/a.tei.xml'' False])"
  using status_404_is_terminal [of "\<lambda>f. True" "''in/a.pdf''" example_client
      "''processDataseerPDF''" "''not found''" "[Response 200 ''<TEI/>'']"]
    status_404_is_terminal [of "\<lambda>f. True" "''in/a.tei.xml''" example_client
      "''processDataseerTEI''" "''not found''" "[Response 200 ''<TEI/>'']"]
  by (simp add: example_client_def example_config_def new_client_def endswith_def)

text \<open>
  C1. The service answers 503, then 200 with the text \<open>t\<close>. \<^verbatim>\<open>process_pdf\<close> sleeps once
  and repeats the request, but through \<^verbatim>\<open>process_tei\<close>: the second POST goes to the TEI
  endpoint, and a gzip file is no longer decompressed. The triple returned is the one of
  the 503 response, without text: the \<^verbatim>\<open>return\<close> of the \<^verbatim>\<open>finally\<close> clause
  replaces the result of the retry. \<^verbatim>\<open>process_tei\<close> loses the result in the same way.
\<close>

theorem retry_result_is_discarded:
  "process_pdf example_client (\<lambda>f. True) ''processDataseerPDF'' ''in/a.pdf.gz''
       [Response 503 ''busy'', Response 200 t] =
     Some (Inr (''in/a.pdf.gz'', 503, None),
           [Post ''http://localhost:8060/service/processDataseerPDF'' ''in/a.pdf.gz'' True,
            Print (Service_overloaded 5), Sleep 5,
            Post ''http://localhost:8060/service/processDataseerTEI'' ''in/a.pdf.gz'' False])
   \<and> process_tei example_client (\<lambda>f. True) ''processDataseerTEI'' ''in/a.tei.xml''
       [Response 503 ''busy'', Response 200 t] =
     Some (Inr (''in/a.tei.xml'', 503, None),
           [Post ''http://localhost:8060/service/processDataseerTEI'' ''in/a.tei.xml'' False,
            Print (Service_overloaded 5), Sleep 5,
            Post ''http://localhost:8060/service/processDataseerTEI'' ''in/a.tei.xml'' False])"
  by (simp add: example_client_def example_config_def new_client_def endswith_def
      status_branch_def)

text \<open>
  C2. When the request raises (timeout, too many redirects, any other request
  exception), the worker prints the line of its \<^verbatim>\<open>except\<close> clause and then raises
  \<^verbatim>\<open>UnboundLocalError\<close>: no triple is returned.
\<close>

theorem transport_failure_raises:
  "process_pdf c (\<lambda>f. True) service f (Raises e # script) =
     Some (Inl UnboundLocalError,
           [Post (service_url c @ endpoint_pdf c) f (endswith f ''.pdf.gz''),
            Print (request_failure_message e)])
   \<and> process_tei c (\<lambda>f. True) service f (Raises e # script) =
     Some (Inl UnboundLocalError,
           [Post (service_url c @ endpoint_tei c) f False,
            Print (request_failure_message e)])"
  by simp

subsection \<open>The output path\<close>

text \<open>
  C4. With an output root, \<^verbatim>\<open>_output_file_name\<close> computes the path of the file
  relative to the input root and then keeps only its last component: a file in a
  sub-directory of the input root and a file of the same name directly in the input root
  get the same output path, directly under the output root, while the branch without an
  output root keeps the directory of each file. In a run over two such files both
  results are written to that one path, the second over the first, and nothing is
  written under \<open>out/sub\<close>.
\<close>

theorem output_path_does_not_mirror:
  "output_file_name ''/home/user'' ''in/a.pdf'' ''in'' (Some ''out'')
     = Inr ''out/a.dataseer.tei.xml''
   \<and> output_file_name ''/home/user'' ''in/sub/a.pdf'' ''in'' (Some ''out'')
     = Inr ''out/a.dataseer.tei.xml''
   \<and> output_file_name ''/home/user'' ''in/sub/a.pdf'' ''in'' None
     = Inr ''in/sub/a.dataseer.tei.xml''
   \<and> map_option (\<lambda>(ex, w). (ex, posted (trace w), written (trace w),
          files w ''out/a.dataseer.tei.xml'', files w ''out/sub/a.dataseer.tei.xml''))
       (process example_client colliding_env empty_world
          ''processDataseerPDF'' ''in'' (Some ''out'') None None None)
     = Some (None, [''in/a.pdf'', ''in/sub/a.pdf''],
             [(''out/a.dataseer.tei.xml'', ''<TEI>in/a.pdf</TEI>''),
              (''out/a.dataseer.tei.xml'', ''<TEI>in/sub/a.pdf</TEI>'')],
             Some ''<TEI>in/sub/a.pdf</TEI>'', None)"
  by code_simp

text \<open>
  C9. The output path is computed from the input file, the input root and the output
  root; the file system and the client are not among the arguments of
  \<open>output_file_name\<close>. The working directory, which \<^verbatim>\<open>os.path.abspath\<close> reads, is an
  argument of the model, and it does not change the result: without an output root for
  no input at all, and with an output root for no file that \<^verbatim>\<open>process\<close> passes, which
  is a file that the walk finds under the input root (the working directory being an
  absolute path, as \<^verbatim>\<open>os.getcwd()\<close> returns it).
\<close>

theorem output_path_is_deterministic:
  "output_file_name wd1 input_file input_path None = output_file_name wd2 input_file input_path None
   \<and> (startswith wd1 ''/'' \<and> startswith wd2 ''/'' \<and> input_path \<noteq> []
        \<and> (\<forall>d\<in>set ds. plain_name d) \<and> plain_name name
      \<longrightarrow> output_file_name wd1 (walked_file input_path ds name) input_path (Some out)
            = output_file_name wd2 (walked_file input_path ds name) input_path (Some out))"
  by (simp add: output_file_name_walked) (simp add: output_file_name_def)

theorem output_path_is_deterministic_witness:
  "output_file_name ''/home/user'' ''in/sub/a.pdf'' ''in'' None
     = output_file_name ''/tmp'' ''in/sub/a.pdf'' ''in'' None
   \<and> output_file_name ''/home/user'' ''in/sub/a.pdf'' ''in'' (Some ''out'')
     = output_file_name ''/tmp'' ''in/sub/a.pdf'' ''in'' (Some ''out'')"
proof -
  have w: "walked_file ''in'' [''sub''] ''a.pdf'' = ''in/sub/a.pdf''"
    by (simp add: walked_file_def join_def startswith_def endswith_def)
  have h: "startswith ''/home/user'' ''/'' \<and> startswith ''/tmp'' ''/'' \<and> ''in'' \<noteq> []
        \<and> (\<forall>d\<in>set [''sub'']. plain_name d) \<and> plain_name ''a.pdf''"
    by (simp add: startswith_def plain_name_def)
  from output_path_is_deterministic [of "''/home/user''" "''in/sub/a.pdf''" "''in''" "''/tmp''"
      "[''sub'']" "''a.pdf''" "''out''"] h
  show ?thesis unfolding w by blast
qed

subsection \<open>Events of the workers, of a batch and of the loop\<close>

lemma batches_append [simp]: "batches (a @ b) = batches a @ batches b"
  by (simp add: batches_def)

lemma posted_append [simp]: "posted (a @ b) = posted a @ posted b"
  by (simp add: posted_def)

lemma written_append [simp]: "written (a @ b) = written a @ written b"
  by (simp add: written_def)

lemma observe_Nil [simp]: "batches [] = []" "posted [] = []" "written [] = []"
  by (simp_all add: batches_def posted_def written_def)

lemma observe_Cons [simp]:
  "batches (ev # evs) = batch_of ev @ batches evs"
  "posted (ev # evs) = post_of ev @ posted evs"
  "written (ev # evs) = write_of ev @ written evs"
  by (simp_all add: batches_def posted_def written_def)

lemma status_branch_events:
  "status_branch file status text = (evs, tei_data)
     \<Longrightarrow> batches evs = [] \<and> posted evs = [] \<and> written evs = []"
  by (auto simp: status_branch_def split: if_splits)

lemma process_tei_events:
  "process_tei c can_open service f scr = Some (r, evs)
     \<Longrightarrow> batches evs = [] \<and> written evs = [] \<and> set (posted evs) \<subseteq> {f}
         \<and> (\<forall>g st txt. r = Inr (g, st, txt) \<longrightarrow> g = f \<and> f \<in> set (posted evs))"
proof (induction c can_open service f scr arbitrary: r evs rule: process_tei.induct)
  case (1 c can_open service tei_file)
  then show ?case by (auto split: if_splits)
next
  case (2 c can_open service tei_file e scr)
  then show ?case by (auto split: if_splits)
next
  case (3 c can_open service tei_file status body scr)
  show ?case
  proof (cases "can_open tei_file")
    case False
    with 3(2) show ?thesis by auto
  next
    case True
    show ?thesis
    proof (cases "status = 503")
      case s: True
      with True 3(2) obtain r' evs' where
        inner: "process_tei c can_open service tei_file scr = Some (r', evs')"
        and r: "r = Inr (tei_file, status, None)"
        and evs: "evs = [Post (service_url c @ endpoint_tei c) tei_file False,
                Print (Service_overloaded (sleep_time (config c))),
                Sleep (sleep_time (config c))] @ evs'"
        by (auto split: option.splits prod.splits)
      from 3(1) [OF _ s inner] True have "batches evs' = [] \<and> written evs' = []
          \<and> set (posted evs') \<subseteq> {tei_file}" by simp
      with r evs show ?thesis by auto
    next
      case s: False
      obtain bevs td where b: "status_branch tei_file status body = (bevs, td)"
        by (cases "status_branch tei_file status body")
      with True s 3(2) have "r = Inr (tei_file, status, td)"
        and "evs = Post (service_url c @ endpoint_tei c) tei_file False # bevs" by auto
      with status_branch_events [OF b] show ?thesis by auto
    qed
  qed
qed

lemma process_pdf_events:
  "process_pdf c can_open service f scr = Some (r, evs)
     \<Longrightarrow> batches evs = [] \<and> written evs = [] \<and> set (posted evs) \<subseteq> {f}
         \<and> (\<forall>g st txt. r = Inr (g, st, txt) \<longrightarrow> g = f \<and> f \<in> set (posted evs))"
proof (cases scr)
  case Nil
  assume "process_pdf c can_open service f scr = Some (r, evs)"
  with Nil show ?thesis by (auto split: if_splits)
next
  case (Cons a scr')
  assume run: "process_pdf c can_open service f scr = Some (r, evs)"
  show ?thesis
  proof (cases a)
    case (Raises e)
    with Cons run show ?thesis by (auto split: if_splits)
  next
    case (Response status body)
    show ?thesis
    proof (cases "can_open f")
      case False
      with run Cons Response show ?thesis by auto
    next
      case True
      show ?thesis
      proof (cases "status = 503")
        case s: True
        with True run Cons Response obtain r' evs' where
          inner: "process_tei c can_open service f scr' = Some (r', evs')"
          and r: "r = Inr (f, status, None)"
          and evs: "evs = [Post (service_url c @ endpoint_pdf c) f (endswith f ''.pdf.gz''),
                Print (Service_overloaded (sleep_time (config c))),
                Sleep (sleep_time (config c))] @ evs'"
          by (auto split: option.splits prod.splits)
        from process_tei_events [OF inner] r evs show ?thesis by auto
      next
        case s: False
        obtain bevs td where b: "status_branch f status body = (bevs, td)"
          by (cases "status_branch f status body")
        with True s run Cons Response have "r = Inr (f, status, td)"
          and "evs = Post (service_url c @ endpoint_pdf c) f (endswith f ''.pdf.gz'') # bevs"
          by auto
        with status_branch_events [OF b] show ?thesis by auto
      qed
    qed
  qed
qed

lemma worker_events:
  assumes "(if service = endpoint_pdf c then process_pdf else process_tei)
             c can_open service f scr = Some (r, evs)"
  shows "batches evs = [] \<and> written evs = [] \<and> set (posted evs) \<subseteq> {f}
         \<and> (\<forall>g st txt. r = Inr (g, st, txt) \<longrightarrow> g = f \<and> f \<in> set (posted evs))"
proof (cases "service = endpoint_pdf c")
  case True
  with assms have "process_pdf c can_open service f scr = Some (r, evs)" by simp
  then show ?thesis by (rule process_pdf_events)
next
  case False
  with assms have "process_tei c can_open service f scr = Some (r, evs)" by simp
  then show ?thesis by (rule process_tei_events)
qed

lemma dispatch_events:
  "dispatch c env fs service ip out force input_files = Some (ex, results, evs) \<Longrightarrow>
     batches evs = [] \<and> written evs = [] \<and>
     (\<forall>g. (g \<in> set (posted evs) \<or> (\<exists>st txt. Inr (g, st, txt) \<in> set results))
          \<longrightarrow> g \<in> set input_files
              \<and> (\<exists>p. output_file_name (cwd env) g ip out = Inr p \<and> (force \<or> fs p = None)))"
proof (induction input_files arbitrary: ex results evs)
  case Nil
  then show ?case by simp
next
  case (Cons input_file input_files)
  show ?case
  proof (cases "output_file_name (cwd env) input_file ip out")
    case (Inl e)
    with Cons.prems show ?thesis by simp
  next
    case (Inr filename)
    show ?thesis
    proof (cases "\<not> force \<and> fs filename \<noteq> None")
      case True
      with Inr Cons.prems obtain evs' where
        rest: "dispatch c env fs service ip out force input_files = Some (ex, results, evs')"
        and evs: "evs = Print (Skipping filename) # evs'"
        by (auto split: option.splits)
      from Cons.IH [OF rest] evs show ?thesis by auto
    next
      case False
      with Inr Cons.prems obtain r task_evs results' evs' where
        task: "(if service = endpoint_pdf c then process_pdf else process_tei)
                 c (readable env) service input_file (replies env input_file) = Some (r, task_evs)"
        and rest: "dispatch c env fs service ip out force input_files = Some (ex, results', evs')"
        and res: "results = r # results'" and evs: "evs = task_evs @ evs'"
        by (auto split: option.splits)
      from worker_events [OF task] have t: "batches task_evs = []" "written task_evs = []"
        "set (posted task_evs) \<subseteq> {input_file}"
        "\<forall>g st txt. r = Inr (g, st, txt) \<longrightarrow> g = input_file" by auto
      have here: "\<exists>p. output_file_name (cwd env) input_file ip out = Inr p \<and> (force \<or> fs p = None)"
        using Inr False by auto
      from Cons.IH [OF rest] have ih: "batches evs' = []" "written evs' = []"
        and ih3: "\<And>g. g \<in> set (posted evs') \<or> (\<exists>st txt. Inr (g, st, txt) \<in> set results')
          \<Longrightarrow> g \<in> set input_files
              \<and> (\<exists>p. output_file_name (cwd env) g ip out = Inr p \<and> (force \<or> fs p = None))"
        by blast+
      show ?thesis
      proof (intro conjI allI impI)
        show "batches evs = []" using t ih evs by simp
        show "written evs = []" using t ih evs by simp
      next
        fix g
        assume "g \<in> set (posted evs) \<or> (\<exists>st txt. Inr (g, st, txt) \<in> set results)"
        then consider "g = input_file"
          | "g \<in> set (posted evs') \<or> (\<exists>st txt. Inr (g, st, txt) \<in> set results')"
          using t res evs by auto
        then have "g \<in> set (input_file # input_files)
            \<and> (\<exists>p. output_file_name (cwd env) g ip out = Inr p \<and> (force \<or> fs p = None))"
        proof cases
          case 1
          then show ?thesis using here by simp
        next
          case 2
          then show ?thesis using ih3 [of g] by simp
        qed
        then show "g \<in> set (input_file # input_files)"
          and "\<exists>p. output_file_name (cwd env) g ip out = Inr p \<and> (force \<or> fs p = None)"
          by simp_all
      qed
    qed
  qed
qed

lemma extend_events:
  assumes tr: "trace w1 = trace w @ [ev]" and b: "batch_of ev = []" and po: "post_of ev = []"
    and wr: "\<And>p t. (p, t) \<in> set (write_of ev) \<Longrightarrow> Q p t"
    and fl: "\<And>p. p \<notin> fst ` set (write_of ev) \<Longrightarrow> files w1 p = files w p"
    and dm: "dom (files w) \<subseteq> dom (files w1)"
    and ih: "\<exists>evs. trace w' = trace w1 @ evs \<and> batches evs = [] \<and> posted evs = []
       \<and> (\<forall>p t. (p, t) \<in> set (written evs) \<longrightarrow> Q p t)
       \<and> (\<forall>p. p \<notin> fst ` set (written evs) \<longrightarrow> files w' p = files w1 p)
       \<and> dom (files w1) \<subseteq> dom (files w')"
  shows "\<exists>evs. trace w' = trace w @ evs \<and> batches evs = [] \<and> posted evs = []
       \<and> (\<forall>p t. (p, t) \<in> set (written evs) \<longrightarrow> Q p t)
       \<and> (\<forall>p. p \<notin> fst ` set (written evs) \<longrightarrow> files w' p = files w p)
       \<and> dom (files w) \<subseteq> dom (files w')"
proof -
  from ih obtain evs where e: "trace w' = trace w1 @ evs" "batches evs = []" "posted evs = []"
    and q: "\<And>p t. (p, t) \<in> set (written evs) \<Longrightarrow> Q p t"
    and f: "\<And>p. p \<notin> fst ` set (written evs) \<Longrightarrow> files w' p = files w1 p"
    and d: "dom (files w1) \<subseteq> dom (files w')"
    by blast
  show ?thesis
  proof (intro exI [of _ "ev # evs"] conjI allI impI)
    show "trace w' = trace w @ ev # evs" using e(1) tr by simp
    show "batches (ev # evs) = []" using e(2) b by simp
    show "posted (ev # evs) = []" using e(3) po by simp
    show "dom (files w) \<subseteq> dom (files w')" using dm d by (rule subset_trans)
  next
    fix p t assume "(p, t) \<in> set (written (ev # evs))"
    then have "(p, t) \<in> set (write_of ev) \<or> (p, t) \<in> set (written evs)" by simp
    then show "Q p t" using wr q by blast
  next
    fix p assume "p \<notin> fst ` set (written (ev # evs))"
    then have 1: "p \<notin> fst ` set (write_of ev)" and 2: "p \<notin> fst ` set (written evs)"
      by (simp_all add: image_Un)
    show "files w' p = files w p" using f [OF 2] fl [OF 1] by simp
  qed
qed

lemma collect_events:
  "collect env ip out rs w = (ex, w') \<Longrightarrow>
     \<exists>evs. trace w' = trace w @ evs \<and> batches evs = [] \<and> posted evs = []
       \<and> (\<forall>p t. (p, t) \<in> set (written evs)
             \<longrightarrow> (\<exists>g st. Inr (g, st, Some t) \<in> set rs
                    \<and> output_file_name (cwd env) g ip out = Inr p))
       \<and> (\<forall>p. p \<notin> fst ` set (written evs) \<longrightarrow> files w' p = files w p)
       \<and> dom (files w) \<subseteq> dom (files w')"
proof (induction env ip out rs w arbitrary: ex w' rule: collect.induct)
  case (1 env input_path out w)
  then show ?case by simp
next
  case (2 env input_path out e rs w)
  then show ?case by simp
next
  case (3 env input_path out input_file status body rs w)
  let ?Q = "\<lambda>rs p t. \<exists>g st. Inr (g, st, Some t) \<in> set rs
                    \<and> output_file_name (cwd env) g input_path out = Inr p"
  have weaken: "\<exists>evs. trace w' = trace w1 @ evs \<and> batches evs = [] \<and> posted evs = []
       \<and> (\<forall>p t. (p, t) \<in> set (written evs) \<longrightarrow> ?Q (Inr (input_file, status, body) # rs) p t)
       \<and> (\<forall>p. p \<notin> fst ` set (written evs) \<longrightarrow> files w' p = files w1 p)
       \<and> dom (files w1) \<subseteq> dom (files w')"
    if "\<exists>evs. trace w' = trace w1 @ evs \<and> batches evs = [] \<and> posted evs = []
       \<and> (\<forall>p t. (p, t) \<in> set (written evs) \<longrightarrow> ?Q rs p t)
       \<and> (\<forall>p. p \<notin> fst ` set (written evs) \<longrightarrow> files w' p = files w1 p)
       \<and> dom (files w1) \<subseteq> dom (files w')" for w1
  proof -
    from that obtain evs where e: "trace w' = trace w1 @ evs" "batches evs = []"
      "posted evs = []"
      "\<forall>p t. (p, t) \<in> set (written evs) \<longrightarrow> ?Q rs p t"
      "\<forall>p. p \<notin> fst ` set (written evs) \<longrightarrow> files w' p = files w1 p"
      "dom (files w1) \<subseteq> dom (files w')" by blast
    have "?Q (Inr (input_file, status, body) # rs) p t" if "(p, t) \<in> set (written evs)" for p t
    proof -
      from e(4) that obtain g st where "Inr (g, st, Some t) \<in> set rs"
        "output_file_name (cwd env) g input_path out = Inr p" by blast
      then show ?thesis by (intro exI [of _ g] exI [of _ st]) simp
    qed
    with e show ?thesis by blast
  qed
  show ?case
  proof (cases "output_file_name (cwd env) input_file input_path out")
    case (Inl e)
    with 3(4) show ?thesis by simp
  next
    case (Inr filename)
    show ?thesis
    proof (cases body)
      case None
      let ?w1 = "emit [Print (Processing_failed input_file status)] w"
      from None Inr 3(4) have run: "collect env input_path out rs ?w1 = (ex, w')" by simp
      show ?thesis
      proof (rule extend_events [where ?w1.0 = ?w1
            and ev = "Print (Processing_failed input_file status)"])
        show "\<exists>evs. trace w' = trace ?w1 @ evs \<and> batches evs = [] \<and> posted evs = []
           \<and> (\<forall>p t. (p, t) \<in> set (written evs) \<longrightarrow> ?Q (Inr (input_file, status, body) # rs) p t)
           \<and> (\<forall>p. p \<notin> fst ` set (written evs) \<longrightarrow> files w' p = files ?w1 p)
           \<and> dom (files ?w1) \<subseteq> dom (files w')"
          by (rule weaken, rule 3(1) [OF Inr None run])
      qed (simp_all add: emit_def)
    next
      case (Some t)
      show ?thesis
      proof (cases "unwritable env filename")
        case True
        let ?w1 = "emit [Print (Writing_failed filename)] w"
        from True Some Inr 3(4) have run: "collect env input_path out rs ?w1 = (ex, w')" by simp
        show ?thesis
        proof (rule extend_events [where ?w1.0 = ?w1 and ev = "Print (Writing_failed filename)"])
          show "\<exists>evs. trace w' = trace ?w1 @ evs \<and> batches evs = [] \<and> posted evs = []
             \<and> (\<forall>p t. (p, t) \<in> set (written evs) \<longrightarrow> ?Q (Inr (input_file, status, body) # rs) p t)
             \<and> (\<forall>p. p \<notin> fst ` set (written evs) \<longrightarrow> files w' p = files ?w1 p)
             \<and> dom (files ?w1) \<subseteq> dom (files w')"
            by (rule weaken, rule 3(2) [OF Inr Some True run])
        qed (simp_all add: emit_def)
      next
        case False
        let ?w1 = "emit [Write filename t] (w\<lparr>files := (files w)(filename \<mapsto> t)\<rparr>)"
        from False Some Inr 3(4) have run: "collect env input_path out rs ?w1 = (ex, w')" by simp
        show ?thesis
        proof (rule extend_events [where ?w1.0 = ?w1 and ev = "Write filename t"])
          show "\<exists>evs. trace w' = trace ?w1 @ evs \<and> batches evs = [] \<and> posted evs = []
             \<and> (\<forall>p t. (p, t) \<in> set (written evs) \<longrightarrow> ?Q (Inr (input_file, status, body) # rs) p t)
             \<and> (\<forall>p. p \<notin> fst ` set (written evs) \<longrightarrow> files w' p = files ?w1 p)
             \<and> dom (files ?w1) \<subseteq> dom (files w')"
            by (rule weaken, rule 3(3) [OF Inr Some False run])
        next
          fix p t' assume "(p, t') \<in> set (write_of (Write filename t))"
          then have "p = filename" "t' = t" by simp_all
          then show "?Q (Inr (input_file, status, body) # rs) p t'"
            using Inr Some by (intro exI [of _ input_file] exI [of _ status]) simp
        qed (auto simp: emit_def)
      qed
    qed
  qed
qed

lemma process_batch_events:
  assumes run: "process_batch c env w service input_files ip out n force verbose = Some (ex, w')"
  shows "\<exists>evs. trace w' = trace w @ evs \<and> batches evs = [input_files]
       \<and> (\<forall>g\<in>set (posted evs). g \<in> set input_files
             \<and> (\<exists>p. output_file_name (cwd env) g ip out = Inr p \<and> (force \<or> files w p = None)))
       \<and> ((\<forall>rs. set (as_completed env rs) \<subseteq> set rs)
            \<longrightarrow> (\<forall>p t. (p, t) \<in> set (written evs)
                  \<longrightarrow> (\<exists>g\<in>set input_files. output_file_name (cwd env) g ip out = Inr p
                         \<and> (force \<or> files w p = None))))
       \<and> (\<forall>p. p \<notin> fst ` set (written evs) \<longrightarrow> files w' p = files w p)
       \<and> dom (files w) \<subseteq> dom (files w')"
proof -
  let ?hd = "Batch input_files
               # (if verbose then [Print (Files_in_batch (length input_files))] else [])"
  let ?w1 = "emit ?hd w"
  have hd: "batches ?hd = [input_files]" "posted ?hd = []" "written ?hd = []" by simp_all
  show ?thesis
  proof (cases "n \<le> 0")
    case True
    with run have "w' = ?w1" by (simp add: process_batch_def Let_def)
    then show ?thesis
      using hd by (intro exI [of _ ?hd]) (simp add: emit_def)
  next
    case False
    with run obtain dex results devs where
      d: "dispatch c env (files w) service ip out force input_files = Some (dex, results, devs)"
      by (cases "dispatch c env (files w) service ip out force input_files")
         (auto simp: process_batch_def Let_def)
    from dispatch_events [OF d] have de: "batches devs = []" "written devs = []"
      and dp: "\<And>g. g \<in> set (posted devs) \<or> (\<exists>st txt. Inr (g, st, txt) \<in> set results)
          \<Longrightarrow> g \<in> set input_files
              \<and> (\<exists>p. output_file_name (cwd env) g ip out = Inr p \<and> (force \<or> files w p = None))"
      by blast+
    show ?thesis
    proof (cases dex)
      case (Some e)
      with run False d have "w' = emit devs ?w1" by (simp add: process_batch_def Let_def)
      then show ?thesis
        using hd de dp by (intro exI [of _ "?hd @ devs"]) (simp add: emit_def)
    next
      case None
      with run False d have
        c: "collect env ip out (as_completed env results) (emit devs ?w1) = (ex, w')"
        by (simp add: process_batch_def Let_def)
      from collect_events [OF c] obtain cevs where
        ce: "trace w' = trace (emit devs ?w1) @ cevs" "batches cevs = []" "posted cevs = []"
        and cw: "\<And>p t. (p, t) \<in> set (written cevs)
             \<Longrightarrow> \<exists>g st. Inr (g, st, Some t) \<in> set (as_completed env results)
                    \<and> output_file_name (cwd env) g ip out = Inr p"
        and cf: "\<And>p. p \<notin> fst ` set (written cevs) \<Longrightarrow> files w' p = files (emit devs ?w1) p"
        and cd: "dom (files (emit devs ?w1)) \<subseteq> dom (files w')"
        by blast
      show ?thesis
      proof (intro exI [of _ "?hd @ devs @ cevs"] conjI allI impI ballI)
        show "trace w' = trace w @ ?hd @ devs @ cevs" using ce(1) by (simp add: emit_def)
        show "batches (?hd @ devs @ cevs) = [input_files]" using hd de ce by simp
        show "dom (files w) \<subseteq> dom (files w')" using cd by (simp add: emit_def)
      next
        fix g assume "g \<in> set (posted (?hd @ devs @ cevs))"
        then have g: "g \<in> set (posted devs)" using ce(3) by (auto split: if_splits)
        from dp [of g] g show "g \<in> set input_files"
          and "\<exists>p. output_file_name (cwd env) g ip out = Inr p \<and> (force \<or> files w p = None)"
          by simp_all
      next
        fix p t
        assume sub: "\<forall>rs. set (as_completed env rs) \<subseteq> set rs"
          and "(p, t) \<in> set (written (?hd @ devs @ cevs))"
        then have "(p, t) \<in> set (written cevs)" using de(2) by (auto split: if_splits)
        from cw [OF this] obtain g st where
          "Inr (g, st, Some t) \<in> set (as_completed env results)"
          and o: "output_file_name (cwd env) g ip out = Inr p" by blast
        with sub have "Inr (g, st, Some t) \<in> set results" by blast
        then have "g \<in> set input_files
              \<and> (\<exists>p. output_file_name (cwd env) g ip out = Inr p \<and> (force \<or> files w p = None))"
          by (intro dp) blast
        with o have "g \<in> set input_files" and "force \<or> files w p = None" by auto
        with o
        show "\<exists>g\<in>set input_files. output_file_name (cwd env) g ip out = Inr p
                         \<and> (force \<or> files w p = None)"
          by blast
      next
        fix p assume "p \<notin> fst ` set (written (?hd @ devs @ cevs))"
        then have "p \<notin> fst ` set (written cevs)" by (auto simp: image_Un split: if_splits)
        from cf [OF this] show "files w' p = files w p" by (simp add: emit_def)
      qed
    qed
  qed
qed

lemma process_batch_batches:
  assumes "process_batch c env w service input_files ip out n force verbose = Some (ex, w')"
  shows "batches (trace w') = batches (trace w) @ [input_files]"
  using process_batch_events [OF assms] by auto

lemma process_loop_batches:
  assumes "process_loop c env service ip out n force verbose pairs input_files nb w
             = Some (ex, w')"
  shows "\<exists>bs rest. batches (trace w') = batches (trace w) @ bs
       \<and> concat bs @ rest
           = input_files @ map (\<lambda>(dirpath, filename). dirpath @ ''/'' @ filename)
               (filter (\<lambda>(dirpath, filename). matches_service service filename) pairs)
       \<and> (ex = None \<longrightarrow> rest = [])
       \<and> (\<forall>b\<in>set (butlast bs). int (length b) = batch_size (config c))
       \<and> (\<forall>b\<in>set bs. b \<noteq> [])
       \<and> (0 < batch_size (config c) \<and> int (length input_files) < batch_size (config c)
            \<longrightarrow> (\<forall>b\<in>set bs. int (length b) \<le> batch_size (config c)))"
  using assms
proof (induction pairs arbitrary: input_files nb w)
  case Nil
  show ?case
  proof (cases "length input_files > 0")
    case True
    with Nil have "process_batch c env w service input_files ip out n force verbose
                     = Some (ex, w')" by simp
    from process_batch_batches [OF this] True show ?thesis
      by (intro exI [of _ "[input_files]"] exI [of _ "[]"]) simp
  next
    case False
    with Nil show ?thesis by (intro exI [of _ "[]"]) simp
  qed
next
  case (Cons pair pairs)
  obtain dirpath filename where pair: "pair = (dirpath, filename)" by (cases pair)
  let ?M = "\<lambda>ps. map (\<lambda>(dirpath, filename). dirpath @ ''/'' @ filename)
               (filter (\<lambda>(dirpath, filename). matches_service service filename) ps)"
  show ?case
  proof (cases "matches_service service filename")
    case False
    with Cons.prems pair have "process_loop c env service ip out n force verbose pairs
        input_files nb w = Some (ex, w')" by simp
    from Cons.IH [OF this] False pair show ?thesis by simp
  next
    case True
    let ?w1 = "if verbose then emit [Print (Found filename)] w else w"
    let ?fs1 = "input_files @ [dirpath @ ''/'' @ filename]"
    have w1: "batches (trace ?w1) = batches (trace w)" by (simp add: emit_def)
    have M: "input_files @ ?M (pair # pairs) = ?fs1 @ ?M pairs" using True pair by simp
    show ?thesis
    proof (cases "int (length ?fs1) = batch_size (config c)")
      case False
      with Cons.prems pair True have "process_loop c env service ip out n force verbose pairs
          ?fs1 nb ?w1 = Some (ex, w')" by (simp add: Let_def)
      from Cons.IH [OF this] obtain bs rest where
        b: "batches (trace w') = batches (trace ?w1) @ bs"
        "concat bs @ rest = ?fs1 @ ?M pairs" "ex = None \<longrightarrow> rest = []"
        "\<forall>b\<in>set (butlast bs). int (length b) = batch_size (config c)"
        "\<forall>b\<in>set bs. b \<noteq> []"
        "0 < batch_size (config c) \<and> int (length ?fs1) < batch_size (config c)
            \<longrightarrow> (\<forall>b\<in>set bs. int (length b) \<le> batch_size (config c))"
        by blast
      have "0 < batch_size (config c) \<and> int (length input_files) < batch_size (config c)
            \<longrightarrow> (\<forall>b\<in>set bs. int (length b) \<le> batch_size (config c))"
        using b(6) False by auto
      with b w1 M show ?thesis
        by (intro exI [of _ bs] exI [of _ rest]) (simp only: simp_thms)
    next
      case full: True
      from Cons.prems pair True full obtain bex w2 where
        batch: "process_batch c env ?w1 service ?fs1 ip out n force verbose = Some (bex, w2)"
        by (cases "process_batch c env ?w1 service ?fs1 ip out n force verbose")
           (auto simp: Let_def)
      have w2: "batches (trace w2) = batches (trace w) @ [?fs1]"
        using process_batch_batches [OF batch] w1 by simp
      let ?nb1 = "nb + length ?fs1"
      show ?thesis
      proof (cases "bex = None \<and> runtime env ?nb1 \<noteq> 0")
        case False
        with Cons.prems pair True full batch have "w' = w2" and "ex \<noteq> None"
          by (auto simp: Let_def split: option.splits if_splits)
        with w2 M full show ?thesis
          by (intro exI [of _ "[?fs1]"] exI [of _ "?M pairs"]) auto
      next
        case go: True
        let ?w3 = "emit [Print (Total_process ?nb1 (runtime env ?nb1))] w2"
        from go Cons.prems pair True full batch have
          "process_loop c env service ip out n force verbose pairs [] ?nb1 ?w3 = Some (ex, w')"
          by (auto simp: Let_def)
        from Cons.IH [OF this] obtain bs rest where
          b: "batches (trace w') = batches (trace ?w3) @ bs"
          "concat bs @ rest = [] @ ?M pairs" "ex = None \<longrightarrow> rest = []"
          "\<forall>b\<in>set (butlast bs). int (length b) = batch_size (config c)"
          "\<forall>b\<in>set bs. b \<noteq> []"
          "0 < batch_size (config c) \<and> int (length ([]::string list)) < batch_size (config c)
            \<longrightarrow> (\<forall>b\<in>set bs. int (length b) \<le> batch_size (config c))"
          by blast
        have w3: "batches (trace ?w3) = batches (trace w) @ [?fs1]"
          using w2 by (simp add: emit_def)
        show ?thesis
        proof (intro exI [of _ "?fs1 # bs"] exI [of _ rest] conjI)
          show "batches (trace w') = batches (trace w) @ ?fs1 # bs" using b(1) w3 by simp
          show "concat (?fs1 # bs) @ rest = input_files @ ?M (pair # pairs)"
            using b(2) M by simp
          show "ex = None \<longrightarrow> rest = []" by (rule b(3))
          show "\<forall>b\<in>set (butlast (?fs1 # bs)). int (length b) = batch_size (config c)"
            using b(4) full by auto
          show "\<forall>b\<in>set (?fs1 # bs). b \<noteq> []" using b(5) by simp
          show "0 < batch_size (config c) \<and> int (length input_files) < batch_size (config c)
            \<longrightarrow> (\<forall>b\<in>set (?fs1 # bs). int (length b) \<le> batch_size (config c))"
            using b(6) full by auto
        qed
      qed
    qed
  qed
qed

lemma some_pair: "(case x of None \<Rightarrow> False | Some y \<Rightarrow> True) \<Longrightarrow> x = Some (fst (the x), snd (the x))"
  by (cases x) simp_all

lemma skip_compose:
  assumes t1: "trace w2 = trace w @ evs1"
    and p1: "\<forall>g\<in>set (posted evs1). \<exists>p. ofn g = Inr p \<and> files w p = None"
    and w1: "\<forall>p t. (p, t) \<in> set (written evs1) \<longrightarrow> files w p = None"
    and f1: "\<forall>p. files w p \<noteq> None \<longrightarrow> files w2 p = files w p"
    and 2: "\<exists>evs. trace w' = trace w2 @ evs
       \<and> (\<forall>g\<in>set (posted evs). \<exists>p. ofn g = Inr p \<and> files w2 p = None)
       \<and> (\<forall>p t. (p, t) \<in> set (written evs) \<longrightarrow> files w2 p = None)
       \<and> (\<forall>p. files w2 p \<noteq> None \<longrightarrow> files w' p = files w2 p)"
  shows "\<exists>evs. trace w' = trace w @ evs
       \<and> (\<forall>g\<in>set (posted evs). \<exists>p. ofn g = Inr p \<and> files w p = None)
       \<and> (\<forall>p t. (p, t) \<in> set (written evs) \<longrightarrow> files w p = None)
       \<and> (\<forall>p. files w p \<noteq> None \<longrightarrow> files w' p = files w p)"
proof -
  from 2 obtain evs2 where t2: "trace w' = trace w2 @ evs2"
    and p2: "\<forall>g\<in>set (posted evs2). \<exists>p. ofn g = Inr p \<and> files w2 p = None"
    and w2: "\<forall>p t. (p, t) \<in> set (written evs2) \<longrightarrow> files w2 p = None"
    and f2: "\<forall>p. files w2 p \<noteq> None \<longrightarrow> files w' p = files w2 p"
    by blast
  have earlier: "files w p = None" if "files w2 p = None" for p
    using f1 that by (cases "files w p") auto
  show ?thesis
  proof (intro exI [of _ "evs1 @ evs2"] conjI ballI allI impI)
    show "trace w' = trace w @ evs1 @ evs2" using t1 t2 by simp
  next
    fix g assume "g \<in> set (posted (evs1 @ evs2))"
    then consider "g \<in> set (posted evs1)" | "g \<in> set (posted evs2)" by auto
    then show "\<exists>p. ofn g = Inr p \<and> files w p = None"
    proof cases
      case 1
      with p1 show ?thesis by blast
    next
      case 2
      with p2 obtain p where "ofn g = Inr p" "files w2 p = None" by blast
      with earlier show ?thesis by blast
    qed
  next
    fix p t assume "(p, t) \<in> set (written (evs1 @ evs2))"
    then consider "(p, t) \<in> set (written evs1)" | "(p, t) \<in> set (written evs2)" by auto
    then show "files w p = None"
    proof cases
      case 1
      with w1 show ?thesis by blast
    next
      case 2
      with w2 have "files w2 p = None" by blast
      then show ?thesis by (rule earlier)
    qed
  next
    fix p assume a: "files w p \<noteq> None"
    with f1 have "files w2 p = files w p" by blast
    with a f2 show "files w' p = files w p" by auto
  qed
qed

lemma skip_print:
  assumes "posted evs1 = []" and "written evs1 = []"
    and 2: "\<exists>evs. trace w' = trace (emit evs1 w) @ evs
       \<and> (\<forall>g\<in>set (posted evs). \<exists>p. ofn g = Inr p \<and> files (emit evs1 w) p = None)
       \<and> (\<forall>p t. (p, t) \<in> set (written evs) \<longrightarrow> files (emit evs1 w) p = None)
       \<and> (\<forall>p. files (emit evs1 w) p \<noteq> None \<longrightarrow> files w' p = files (emit evs1 w) p)"
  shows "\<exists>evs. trace w' = trace w @ evs
       \<and> (\<forall>g\<in>set (posted evs). \<exists>p. ofn g = Inr p \<and> files w p = None)
       \<and> (\<forall>p t. (p, t) \<in> set (written evs) \<longrightarrow> files w p = None)
       \<and> (\<forall>p. files w p \<noteq> None \<longrightarrow> files w' p = files w p)"
  by (rule skip_compose [where ?w2.0 = "emit evs1 w" and ?evs1.0 = evs1, OF _ _ _ _ 2])
     (simp_all add: emit_def assms(1,2))

lemma process_batch_skip:
  assumes sub: "\<forall>rs. set (as_completed env rs) \<subseteq> set rs"
    and run: "process_batch c env w service input_files ip out n False verbose = Some (ex, w')"
  shows "\<exists>evs. trace w' = trace w @ evs
       \<and> (\<forall>g\<in>set (posted evs). \<exists>p. output_file_name (cwd env) g ip out = Inr p \<and> files w p = None)
       \<and> (\<forall>p t. (p, t) \<in> set (written evs) \<longrightarrow> files w p = None)
       \<and> (\<forall>p. files w p \<noteq> None \<longrightarrow> files w' p = files w p)"
proof -
  from process_batch_events [OF run] sub obtain evs where
    e: "trace w' = trace w @ evs"
    and p: "\<forall>g\<in>set (posted evs). g \<in> set input_files
             \<and> (\<exists>p. output_file_name (cwd env) g ip out = Inr p \<and> (False \<or> files w p = None))"
    and wr: "\<forall>p t. (p, t) \<in> set (written evs)
                  \<longrightarrow> (\<exists>g\<in>set input_files. output_file_name (cwd env) g ip out = Inr p
                         \<and> (False \<or> files w p = None))"
    and f: "\<forall>p. p \<notin> fst ` set (written evs) \<longrightarrow> files w' p = files w p"
    by blast
  show ?thesis
  proof (intro exI [of _ evs] conjI ballI allI impI)
    show "trace w' = trace w @ evs" by (rule e)
  next
    fix g assume "g \<in> set (posted evs)"
    with p show "\<exists>p. output_file_name (cwd env) g ip out = Inr p \<and> files w p = None" by simp
  next
    fix p t assume "(p, t) \<in> set (written evs)"
    with wr show "files w p = None" by blast
  next
    fix p assume a: "files w p \<noteq> None"
    have "p \<notin> fst ` set (written evs)"
    proof
      assume "p \<in> fst ` set (written evs)"
      then obtain t where "(p, t) \<in> set (written evs)" by auto
      with wr have "files w p = None" by blast
      with a show False by simp
    qed
    with f show "files w' p = files w p" by blast
  qed
qed

lemma process_loop_skip:
  assumes sub: "\<forall>rs. set (as_completed env rs) \<subseteq> set rs"
    and run: "process_loop c env service ip out n False verbose pairs input_files nb w
                = Some (ex, w')"
  shows "\<exists>evs. trace w' = trace w @ evs
       \<and> (\<forall>g\<in>set (posted evs). \<exists>p. output_file_name (cwd env) g ip out = Inr p \<and> files w p = None)
       \<and> (\<forall>p t. (p, t) \<in> set (written evs) \<longrightarrow> files w p = None)
       \<and> (\<forall>p. files w p \<noteq> None \<longrightarrow> files w' p = files w p)"
  using run
proof (induction pairs arbitrary: input_files nb w)
  case Nil
  show ?case
  proof (cases "length input_files > 0")
    case True
    with Nil have "process_batch c env w service input_files ip out n False verbose
                     = Some (ex, w')" by simp
    then show ?thesis by (rule process_batch_skip [OF sub])
  next
    case False
    with Nil show ?thesis by (intro exI [of _ "[]"]) simp
  qed
next
  case (Cons pair pairs)
  obtain dirpath filename where pair: "pair = (dirpath, filename)" by (cases pair)
  show ?case
  proof (cases "matches_service service filename")
    case False
    with Cons.prems pair have "process_loop c env service ip out n False verbose pairs
        input_files nb w = Some (ex, w')" by simp
    then show ?thesis by (rule Cons.IH)
  next
    case True
    let ?evs1 = "if verbose then [Print (Found filename)] else []"
    let ?w1 = "emit ?evs1 w"
    let ?fs1 = "input_files @ [dirpath @ ''/'' @ filename]"
    have w1: "(if verbose then emit [Print (Found filename)] w else w) = ?w1"
      by (simp add: emit_def)
    have e1: "posted ?evs1 = []" "written ?evs1 = []" by simp_all
    show ?thesis
    proof (rule skip_print [OF e1])
      show "\<exists>evs. trace w' = trace ?w1 @ evs
       \<and> (\<forall>g\<in>set (posted evs). \<exists>p. output_file_name (cwd env) g ip out = Inr p
              \<and> files ?w1 p = None)
       \<and> (\<forall>p t. (p, t) \<in> set (written evs) \<longrightarrow> files ?w1 p = None)
       \<and> (\<forall>p. files ?w1 p \<noteq> None \<longrightarrow> files w' p = files ?w1 p)"
      proof (cases "int (length ?fs1) = batch_size (config c)")
        case False
        with Cons.prems pair True w1 have "process_loop c env service ip out n False verbose
            pairs ?fs1 nb ?w1 = Some (ex, w')" by (simp add: Let_def)
        then show ?thesis by (rule Cons.IH)
      next
        case full: True
        from Cons.prems pair True full w1 obtain bex w2 where
          batch: "process_batch c env ?w1 service ?fs1 ip out n False verbose = Some (bex, w2)"
          by (cases "process_batch c env ?w1 service ?fs1 ip out n False verbose")
             (auto simp: Let_def)
        from process_batch_skip [OF sub batch] obtain bevs where
          b: "trace w2 = trace ?w1 @ bevs"
          "\<forall>g\<in>set (posted bevs). \<exists>p. output_file_name (cwd env) g ip out = Inr p
              \<and> files ?w1 p = None"
          "\<forall>p t. (p, t) \<in> set (written bevs) \<longrightarrow> files ?w1 p = None"
          "\<forall>p. files ?w1 p \<noteq> None \<longrightarrow> files w2 p = files ?w1 p"
          by blast
        let ?nb1 = "nb + length ?fs1"
        show ?thesis
        proof (rule skip_compose [OF b])
          show "\<exists>evs. trace w' = trace w2 @ evs
             \<and> (\<forall>g\<in>set (posted evs). \<exists>p. output_file_name (cwd env) g ip out = Inr p
                  \<and> files w2 p = None)
             \<and> (\<forall>p t. (p, t) \<in> set (written evs) \<longrightarrow> files w2 p = None)
             \<and> (\<forall>p. files w2 p \<noteq> None \<longrightarrow> files w' p = files w2 p)"
          proof (cases "bex = None \<and> runtime env ?nb1 \<noteq> 0")
            case False
            with Cons.prems pair True full batch w1 have "w' = w2"
              by (auto simp: Let_def split: option.splits if_splits)
            then show ?thesis by (intro exI [of _ "[]"]) simp
          next
            case go: True
            let ?evs3 = "[Print (Total_process ?nb1 (runtime env ?nb1))]"
            from go Cons.prems pair True full batch w1 have
              loop: "process_loop c env service ip out n False verbose pairs [] ?nb1
                 (emit ?evs3 w2) = Some (ex, w')"
              by (auto simp: Let_def)
            show ?thesis
              by (rule skip_print [where ?evs1.0 = ?evs3, OF _ _ Cons.IH [OF loop]]) simp_all
          qed
        qed
      qed
    qed
  qed
qed

lemma worker_200:
  assumes "(if service = endpoint_pdf c then process_pdf else process_tei)
             c can_open service f (Response 200 body # rest) = Some (Inr res, evs)"
  shows "res = (f, 200, Some body)"
  using assms by (cases "service = endpoint_pdf c") (auto simp: status_branch_def split: if_splits)

lemma dispatch_all:
  "dispatch c env fs service ip out True input_files = Some (dex, results, evs) \<Longrightarrow>
     \<forall>f\<in>set input_files. \<exists>r task_evs.
        (if service = endpoint_pdf c then process_pdf else process_tei)
           c (readable env) service f (replies env f) = Some (r, task_evs)
        \<and> r \<in> set results \<and> set (posted task_evs) \<subseteq> set (posted evs)"
proof (induction input_files arbitrary: dex results evs)
  case Nil
  then show ?case by simp
next
  case (Cons input_file input_files)
  obtain filename where o: "output_file_name (cwd env) input_file ip out = Inr filename"
    using output_file_name_total by blast
  with Cons.prems obtain r task_evs results' evs' where
    task: "(if service = endpoint_pdf c then process_pdf else process_tei)
             c (readable env) service input_file (replies env input_file) = Some (r, task_evs)"
    and rest: "dispatch c env fs service ip out True input_files = Some (dex, results', evs')"
    and res: "results = r # results'" and evs: "evs = task_evs @ evs'"
    by (auto split: option.splits)
  show ?case
  proof
    fix f assume "f \<in> set (input_file # input_files)"
    then consider "f = input_file" | "f \<in> set input_files" by auto
    then show "\<exists>r task_evs.
        (if service = endpoint_pdf c then process_pdf else process_tei)
           c (readable env) service f (replies env f) = Some (r, task_evs)
        \<and> r \<in> set results \<and> set (posted task_evs) \<subseteq> set (posted evs)"
    proof cases
      case 1
      with task res evs show ?thesis by auto
    next
      case 2
      with Cons.IH [OF rest] obtain r' tevs where
        "(if service = endpoint_pdf c then process_pdf else process_tei)
           c (readable env) service f (replies env f) = Some (r', tevs)"
        "r' \<in> set results'" "set (posted tevs) \<subseteq> set (posted evs')" by blast
      with res evs show ?thesis by auto
    qed
  qed
qed

lemma collect_all_step:
  assumes tr1: "trace w1 = trace w @ [ev]"
    and f1: "\<And>p. p \<notin> fst ` set (write_of ev) \<Longrightarrow> files w1 p = files w p"
    and f2: "\<And>p t. (p, t) \<in> set (write_of ev) \<Longrightarrow> files w1 p = Some t"
    and first: "\<And>t p. body = Some t \<Longrightarrow> ofn input_file = Inr p \<Longrightarrow> \<not> unw p
                 \<Longrightarrow> (p, t) \<in> set (write_of ev)"
    and ih: "(\<forall>r\<in>set rs. \<exists>res. r = Inr res) \<and>
     (\<exists>evs. trace w' = trace w1 @ evs
        \<and> (\<forall>g st t p. Inr (g, st, Some t) \<in> set rs \<and> ofn g = Inr p \<and> \<not> unw p
              \<longrightarrow> (p, t) \<in> set (written evs))
        \<and> (\<forall>p. p \<notin> fst ` set (written evs) \<longrightarrow> files w' p = files w1 p)
        \<and> (\<forall>p\<in>fst ` set (written evs). \<exists>t. files w' p = Some t \<and> (p, t) \<in> set (written evs)))"
  shows "(\<forall>r\<in>set (Inr (input_file, status, body) # rs). \<exists>res. r = Inr res) \<and>
     (\<exists>evs. trace w' = trace w @ evs
        \<and> (\<forall>g st t p. Inr (g, st, Some t) \<in> set (Inr (input_file, status, body) # rs)
              \<and> ofn g = Inr p \<and> \<not> unw p
              \<longrightarrow> (p, t) \<in> set (written evs))
        \<and> (\<forall>p. p \<notin> fst ` set (written evs) \<longrightarrow> files w' p = files w p)
        \<and> (\<forall>p\<in>fst ` set (written evs). \<exists>t. files w' p = Some t \<and> (p, t) \<in> set (written evs)))"
proof -
  from ih have all: "\<forall>r\<in>set rs. \<exists>res. r = Inr res" by (rule conjunct1)
  from ih have "\<exists>evs. trace w' = trace w1 @ evs
        \<and> (\<forall>g st t p. Inr (g, st, Some t) \<in> set rs \<and> ofn g = Inr p \<and> \<not> unw p
              \<longrightarrow> (p, t) \<in> set (written evs))
        \<and> (\<forall>p. p \<notin> fst ` set (written evs) \<longrightarrow> files w' p = files w1 p)
        \<and> (\<forall>p\<in>fst ` set (written evs). \<exists>t. files w' p = Some t \<and> (p, t) \<in> set (written evs))"
    by (rule conjunct2)
  then obtain evs where c: "trace w' = trace w1 @ evs
        \<and> (\<forall>g st t p. Inr (g, st, Some t) \<in> set rs \<and> ofn g = Inr p \<and> \<not> unw p
              \<longrightarrow> (p, t) \<in> set (written evs))
        \<and> (\<forall>p. p \<notin> fst ` set (written evs) \<longrightarrow> files w' p = files w1 p)
        \<and> (\<forall>p\<in>fst ` set (written evs). \<exists>t. files w' p = Some t \<and> (p, t) \<in> set (written evs))"
    ..
  from c have e: "trace w' = trace w1 @ evs" by (rule conjunct1)
  from c have wr: "Inr (g, st, Some t) \<in> set rs \<Longrightarrow> ofn g = Inr p \<Longrightarrow> \<not> unw p
              \<Longrightarrow> (p, t) \<in> set (written evs)" for g st t p
    by (simp only: simp_thms)
  from c have same: "p \<notin> fst ` set (written evs) \<Longrightarrow> files w' p = files w1 p" for p
    by (simp only: simp_thms)
  from c have final: "p \<in> fst ` set (written evs)
              \<Longrightarrow> \<exists>t. files w' p = Some t \<and> (p, t) \<in> set (written evs)" for p
    by (simp only: simp_thms Ball_def)
  show ?thesis
  proof (intro conjI exI [of _ "ev # evs"] ballI allI impI)
    fix r assume "r \<in> set (Inr (input_file, status, body) # rs)"
    with all show "\<exists>res. r = Inr res" by auto
  next
    show "trace w' = trace w @ ev # evs" using e tr1 by simp
  next
    fix g st t p
    assume a: "Inr (g, st, Some t) \<in> set (Inr (input_file, status, body) # rs)
              \<and> ofn g = Inr p \<and> \<not> unw p"
    then consider "g = input_file \<and> body = Some t" | "Inr (g, st, Some t) \<in> set rs" by auto
    then show "(p, t) \<in> set (written (ev # evs))"
    proof cases
      case 1
      with a first [of t p] show ?thesis by simp
    next
      case 2
      with a wr [of g st t p] show ?thesis by simp
    qed
  next
    fix p assume "p \<notin> fst ` set (written (ev # evs))"
    then have 1: "p \<notin> fst ` set (write_of ev)" and 2: "p \<notin> fst ` set (written evs)"
      by (simp_all add: image_Un)
    from same [OF 2] f1 [OF 1] show "files w' p = files w p" by simp
  next
    fix p assume p: "p \<in> fst ` set (written (ev # evs))"
    show "\<exists>t. files w' p = Some t \<and> (p, t) \<in> set (written (ev # evs))"
    proof (cases "p \<in> fst ` set (written evs)")
      case True
      from final [OF this] obtain t where "files w' p = Some t" "(p, t) \<in> set (written evs)"
        by blast
      then show ?thesis by (intro exI [of _ t]) simp
    next
      case False
      with p have "p \<in> fst ` set (write_of ev)" by (simp add: image_Un)
      then obtain t where t: "(p, t) \<in> set (write_of ev)" by auto
      from same [OF False] f2 [OF t] t show ?thesis by (intro exI [of _ t]) simp
    qed
  qed
qed

lemma collect_all:
  "collect env ip out rs w = (None, w') \<Longrightarrow>
     (\<forall>r\<in>set rs. \<exists>res. r = Inr res) \<and>
     (\<exists>evs. trace w' = trace w @ evs
        \<and> (\<forall>g st t p. Inr (g, st, Some t) \<in> set rs
              \<and> output_file_name (cwd env) g ip out = Inr p \<and> \<not> unwritable env p
              \<longrightarrow> (p, t) \<in> set (written evs))
        \<and> (\<forall>p. p \<notin> fst ` set (written evs) \<longrightarrow> files w' p = files w p)
        \<and> (\<forall>p\<in>fst ` set (written evs). \<exists>t. files w' p = Some t \<and> (p, t) \<in> set (written evs)))"
proof (induction env ip out rs w arbitrary: w' rule: collect.induct)
  case (1 env input_path out w)
  then show ?case by simp
next
  case (2 env input_path out e rs w)
  then show ?case by simp
next
  case (3 env input_path out input_file status body rs w)
  obtain filename where o: "output_file_name (cwd env) input_file input_path out = Inr filename"
    using output_file_name_total by blast
  show ?case
  proof (cases body)
    case None
    let ?w1 = "emit [Print (Processing_failed input_file status)] w"
    from None o 3(4) have run: "collect env input_path out rs ?w1 = (None, w')" by simp
    show ?thesis
      by (rule collect_all_step [where ofn = "\<lambda>g. output_file_name (cwd env) g input_path out"
            and unw = "unwritable env" and ?w1.0 = ?w1
            and ev = "Print (Processing_failed input_file status)",
            OF _ _ _ _ 3(1) [OF o None run]])
         (auto simp: emit_def None)
  next
    case (Some t)
    show ?thesis
    proof (cases "unwritable env filename")
      case True
      let ?w1 = "emit [Print (Writing_failed filename)] w"
      from True Some o 3(4) have run: "collect env input_path out rs ?w1 = (None, w')" by simp
      show ?thesis
        by (rule collect_all_step [where ofn = "\<lambda>g. output_file_name (cwd env) g input_path out"
            and unw = "unwritable env" and ?w1.0 = ?w1 and ev = "Print (Writing_failed filename)",
              OF _ _ _ _ 3(2) [OF o Some True run]])
           (insert True, auto simp: emit_def o)
    next
      case False
      let ?w1 = "emit [Write filename t] (w\<lparr>files := (files w)(filename \<mapsto> t)\<rparr>)"
      from False Some o 3(4) have run: "collect env input_path out rs ?w1 = (None, w')" by simp
      show ?thesis
        by (rule collect_all_step [where ofn = "\<lambda>g. output_file_name (cwd env) g input_path out"
            and unw = "unwritable env" and ?w1.0 = ?w1 and ev = "Write filename t",
              OF _ _ _ _ 3(3) [OF o Some False run]])
           (auto simp: emit_def o Some)
    qed
  qed
qed

lemma four_parts:
  assumes "\<exists>evs. A evs \<and> B evs \<and> C evs \<and> D evs"
  obtains evs where "A evs" and "B evs" and "C evs" and "D evs"
  using assms by (elim exE conjE)

lemma all_compose:
  assumes t1: "trace w2 = trace w @ evs1"
    and q1: "\<forall>f\<in>A. Q f evs1"
    and s1: "\<forall>p. p \<notin> fst ` set (written evs1) \<longrightarrow> files w2 p = files w p"
    and l1: "\<forall>p\<in>fst ` set (written evs1). \<exists>t. files w2 p = Some t \<and> (p, t) \<in> set (written evs1)"
    and 2: "\<exists>evs. trace w' = trace w2 @ evs
        \<and> (\<forall>f\<in>B. Q f evs)
        \<and> (\<forall>p. p \<notin> fst ` set (written evs) \<longrightarrow> files w' p = files w2 p)
        \<and> (\<forall>p\<in>fst ` set (written evs). \<exists>t. files w' p = Some t \<and> (p, t) \<in> set (written evs))"
    and mono1: "\<And>f a b. Q f a \<Longrightarrow> Q f (a @ b)"
    and mono2: "\<And>f a b. Q f b \<Longrightarrow> Q f (a @ b)"
  shows "\<exists>evs. trace w' = trace w @ evs
        \<and> (\<forall>f\<in>A \<union> B. Q f evs)
        \<and> (\<forall>p. p \<notin> fst ` set (written evs) \<longrightarrow> files w' p = files w p)
        \<and> (\<forall>p\<in>fst ` set (written evs). \<exists>t. files w' p = Some t \<and> (p, t) \<in> set (written evs))"
proof -
  from 2 obtain evs2 where t2: "trace w' = trace w2 @ evs2"
    and q2: "\<forall>f\<in>B. Q f evs2"
    and s2: "\<forall>p. p \<notin> fst ` set (written evs2) \<longrightarrow> files w' p = files w2 p"
    and l2: "\<forall>p\<in>fst ` set (written evs2). \<exists>t. files w' p = Some t \<and> (p, t) \<in> set (written evs2)"
    by (rule four_parts)
  show ?thesis
  proof (intro exI [of _ "evs1 @ evs2"] conjI ballI allI impI)
    show "trace w' = trace w @ evs1 @ evs2" using t1 t2 by simp
  next
    fix f assume "f \<in> A \<union> B"
    then consider "f \<in> A" | "f \<in> B" by auto
    then show "Q f (evs1 @ evs2)"
    proof cases
      case 1
      with q1 have "Q f evs1" by simp
      then show ?thesis by (rule mono1)
    next
      case 2
      with q2 have "Q f evs2" by simp
      then show ?thesis by (rule mono2)
    qed
  next
    fix p assume "p \<notin> fst ` set (written (evs1 @ evs2))"
    then have "p \<notin> fst ` set (written evs1)" and "p \<notin> fst ` set (written evs2)"
      by (simp_all add: image_Un)
    with s1 s2 show "files w' p = files w p" by simp
  next
    fix p assume p: "p \<in> fst ` set (written (evs1 @ evs2))"
    show "\<exists>t. files w' p = Some t \<and> (p, t) \<in> set (written (evs1 @ evs2))"
    proof (cases "p \<in> fst ` set (written evs2)")
      case True
      with l2 obtain t where "files w' p = Some t" "(p, t) \<in> set (written evs2)" by auto
      then show ?thesis by (intro exI [of _ t]) simp
    next
      case False
      with p have "p \<in> fst ` set (written evs1)" by (simp add: image_Un)
      with l1 obtain t where "files w2 p = Some t" "(p, t) \<in> set (written evs1)" by auto
      with False s2 show ?thesis by (intro exI [of _ t]) simp
    qed
  qed
qed

lemma all_print:
  assumes w: "written evs1 = []"
    and 2: "\<exists>evs. trace w' = trace (emit evs1 w) @ evs
        \<and> (\<forall>f\<in>B. Q f evs)
        \<and> (\<forall>p. p \<notin> fst ` set (written evs) \<longrightarrow> files w' p = files (emit evs1 w) p)
        \<and> (\<forall>p\<in>fst ` set (written evs). \<exists>t. files w' p = Some t \<and> (p, t) \<in> set (written evs))"
    and mono2: "\<And>f a b. Q f b \<Longrightarrow> Q f (a @ b)"
  shows "\<exists>evs. trace w' = trace w @ evs
        \<and> (\<forall>f\<in>B. Q f evs)
        \<and> (\<forall>p. p \<notin> fst ` set (written evs) \<longrightarrow> files w' p = files w p)
        \<and> (\<forall>p\<in>fst ` set (written evs). \<exists>t. files w' p = Some t \<and> (p, t) \<in> set (written evs))"
proof -
  from 2 obtain evs2 where t2: "trace w' = trace (emit evs1 w) @ evs2"
    and q2: "\<forall>f\<in>B. Q f evs2"
    and s2: "\<forall>p. p \<notin> fst ` set (written evs2) \<longrightarrow> files w' p = files (emit evs1 w) p"
    and l2: "\<forall>p\<in>fst ` set (written evs2). \<exists>t. files w' p = Some t \<and> (p, t) \<in> set (written evs2)"
    by (rule four_parts)
  show ?thesis
  proof (intro exI [of _ "evs1 @ evs2"] conjI ballI)
    show "trace w' = trace w @ evs1 @ evs2" using t2 by (simp add: emit_def)
    show "\<forall>p. p \<notin> fst ` set (written (evs1 @ evs2)) \<longrightarrow> files w' p = files w p"
      using s2 w by (simp add: emit_def)
  next
    fix f assume "f \<in> B"
    with q2 have "Q f evs2" by simp
    then show "Q f (evs1 @ evs2)" by (rule mono2)
  next
    fix p assume "p \<in> fst ` set (written (evs1 @ evs2))"
    then have "p \<in> fst ` set (written evs2)" using w by simp
    with l2 obtain t where "files w' p = Some t" "(p, t) \<in> set (written evs2)" by auto
    then show "\<exists>t. files w' p = Some t \<and> (p, t) \<in> set (written (evs1 @ evs2))"
      by (intro exI [of _ t]) simp
  qed
qed

lemma process_batch_all:
  assumes perm: "\<forall>rs. set rs \<subseteq> set (as_completed env rs)"
    and run: "process_batch c env w service input_files ip out n True verbose = Some (None, w')"
  shows "\<exists>evs. trace w' = trace w @ evs
        \<and> (\<forall>f\<in>set input_files. f \<in> set (posted evs)
              \<and> (\<forall>body rest p. replies env f = Response 200 body # rest
                    \<and> output_file_name (cwd env) f ip out = Inr p \<and> \<not> unwritable env p
                    \<longrightarrow> (p, body) \<in> set (written evs)))
        \<and> (\<forall>p. p \<notin> fst ` set (written evs) \<longrightarrow> files w' p = files w p)
        \<and> (\<forall>p\<in>fst ` set (written evs). \<exists>t. files w' p = Some t \<and> (p, t) \<in> set (written evs))"
proof -
  let ?hd = "Batch input_files
               # (if verbose then [Print (Files_in_batch (length input_files))] else [])"
  let ?w1 = "emit ?hd w"
  have hd: "written ?hd = []" by simp
  from run have n: "\<not> n \<le> 0" by (auto simp: process_batch_def Let_def)
  with run obtain dex results devs where
    d: "dispatch c env (files w) service ip out True input_files = Some (dex, results, devs)"
    by (cases "dispatch c env (files w) service ip out True input_files")
       (auto simp: process_batch_def Let_def)
  from run n d have dex: "dex = None"
    by (cases dex) (auto simp: process_batch_def Let_def)
  with run n d have
    c: "collect env ip out (as_completed env results) (emit devs ?w1) = (None, w')"
    by (simp add: process_batch_def Let_def)
  from dispatch_events [OF d] have dw: "written devs = []" by simp
  from collect_all [OF c] have inr: "\<forall>r\<in>set (as_completed env results). \<exists>res. r = Inr res"
    by (rule conjunct1)
  from collect_all [OF c] have "\<exists>evs. trace w' = trace (emit devs ?w1) @ evs
        \<and> (\<forall>g st t p. Inr (g, st, Some t) \<in> set (as_completed env results)
              \<and> output_file_name (cwd env) g ip out = Inr p \<and> \<not> unwritable env p
              \<longrightarrow> (p, t) \<in> set (written evs))
        \<and> (\<forall>p. p \<notin> fst ` set (written evs) \<longrightarrow> files w' p = files (emit devs ?w1) p)
        \<and> (\<forall>p\<in>fst ` set (written evs). \<exists>t. files w' p = Some t \<and> (p, t) \<in> set (written evs))"
    by (rule conjunct2)
  then obtain cevs where ct: "trace w' = trace (emit devs ?w1) @ cevs"
    and cw: "\<forall>g st t p. Inr (g, st, Some t) \<in> set (as_completed env results)
              \<and> output_file_name (cwd env) g ip out = Inr p \<and> \<not> unwritable env p
              \<longrightarrow> (p, t) \<in> set (written cevs)"
    and cs: "\<forall>p. p \<notin> fst ` set (written cevs) \<longrightarrow> files w' p = files (emit devs ?w1) p"
    and cl: "\<forall>p\<in>fst ` set (written cevs). \<exists>t. files w' p = Some t \<and> (p, t) \<in> set (written cevs)"
    by (rule four_parts)
  have wr: "written (?hd @ devs @ cevs) = written cevs" using dw by simp
  show ?thesis
  proof (intro exI [of _ "?hd @ devs @ cevs"] conjI ballI allI impI)
    show "trace w' = trace w @ ?hd @ devs @ cevs" using ct by (simp add: emit_def)
  next
    fix f assume f: "f \<in> set input_files"
    with dispatch_all [OF d] obtain r task_evs where
      task: "(if service = endpoint_pdf c then process_pdf else process_tei)
           c (readable env) service f (replies env f) = Some (r, task_evs)"
      and r: "r \<in> set results" and sub: "set (posted task_evs) \<subseteq> set (posted devs)"
      by blast
    from r perm have r': "r \<in> set (as_completed env results)" by blast
    with inr obtain res where res: "r = Inr res" by blast
    obtain g st tx where "res = (g, st, tx)" by (cases res)
    with worker_events [OF task] res have "f \<in> set (posted task_evs)" by simp
    with sub show "f \<in> set (posted (?hd @ devs @ cevs))" by auto
    fix body rest p
    assume a: "replies env f = Response 200 body # rest
                    \<and> output_file_name (cwd env) f ip out = Inr p \<and> \<not> unwritable env p"
    with task res have "(if service = endpoint_pdf c then process_pdf else process_tei)
           c (readable env) service f (Response 200 body # rest) = Some (Inr res, task_evs)"
      by simp
    then have "res = (f, 200, Some body)" by (rule worker_200)
    with r' res have "Inr (f, 200, Some body) \<in> set (as_completed env results)" by simp
    with cw a have "(p, body) \<in> set (written cevs)" by blast
    then show "(p, body) \<in> set (written (?hd @ devs @ cevs))" unfolding wr .
  next
    fix p assume "p \<notin> fst ` set (written (?hd @ devs @ cevs))"
    then have "p \<notin> fst ` set (written cevs)" unfolding wr .
    with cs show "files w' p = files w p" by (simp add: emit_def)
  next
    fix p assume "p \<in> fst ` set (written (?hd @ devs @ cevs))"
    then have "p \<in> fst ` set (written cevs)" unfolding wr .
    with cl obtain t where "files w' p = Some t" "(p, t) \<in> set (written cevs)" by auto
    then show "\<exists>t. files w' p = Some t \<and> (p, t) \<in> set (written (?hd @ devs @ cevs))"
      unfolding wr by blast
  qed
qed

lemma process_loop_all:
  assumes perm: "\<forall>rs. set rs \<subseteq> set (as_completed env rs)"
    and run: "process_loop c env service ip out n True verbose pairs input_files nb w
                = Some (None, w')"
  shows "\<exists>evs. trace w' = trace w @ evs
        \<and> (\<forall>f\<in>set input_files \<union> set (map (\<lambda>(dirpath, filename). dirpath @ ''/'' @ filename)
               (filter (\<lambda>(dirpath, filename). matches_service service filename) pairs)).
              f \<in> set (posted evs)
              \<and> (\<forall>body rest p. replies env f = Response 200 body # rest
                    \<and> output_file_name (cwd env) f ip out = Inr p \<and> \<not> unwritable env p
                    \<longrightarrow> (p, body) \<in> set (written evs)))
        \<and> (\<forall>p. p \<notin> fst ` set (written evs) \<longrightarrow> files w' p = files w p)
        \<and> (\<forall>p\<in>fst ` set (written evs). \<exists>t. files w' p = Some t \<and> (p, t) \<in> set (written evs))"
  using run
proof (induction pairs arbitrary: input_files nb w)
  case Nil
  show ?case
  proof (cases "length input_files > 0")
    case True
    with Nil have "process_batch c env w service input_files ip out n True verbose
                     = Some (None, w')" by simp
    from process_batch_all [OF perm this] show ?thesis by simp
  next
    case False
    with Nil show ?thesis by (intro exI [of _ "[]"]) simp
  qed
next
  case (Cons pair pairs)
  obtain dirpath filename where pair: "pair = (dirpath, filename)" by (cases pair)
  let ?M = "\<lambda>ps. map (\<lambda>(dirpath, filename). dirpath @ ''/'' @ filename)
               (filter (\<lambda>(dirpath, filename). matches_service service filename) ps)"
  let ?Q = "\<lambda>f evs. f \<in> set (posted evs)
              \<and> (\<forall>body rest p. replies env f = Response 200 body # rest
                    \<and> output_file_name (cwd env) f ip out = Inr p \<and> \<not> unwritable env p
                    \<longrightarrow> (p, body) \<in> set (written evs))"
  have mono1: "?Q f (a @ b)" if "?Q f a" for f a b using that by auto
  have mono2: "?Q f (a @ b)" if "?Q f b" for f a b using that by auto
  show ?case
  proof (cases "matches_service service filename")
    case False
    with Cons.prems pair have "process_loop c env service ip out n True verbose pairs
        input_files nb w = Some (None, w')" by simp
    from Cons.IH [OF this] False pair show ?thesis by simp
  next
    case True
    let ?evs1 = "if verbose then [Print (Found filename)] else []"
    let ?w1 = "emit ?evs1 w"
    let ?fs1 = "input_files @ [dirpath @ ''/'' @ filename]"
    have w1: "(if verbose then emit [Print (Found filename)] w else w) = ?w1"
      by (simp add: emit_def)
    have e1: "written ?evs1 = []" by simp
    have eq: "set input_files \<union> set (?M (pair # pairs)) = set ?fs1 \<union> (set [] \<union> set (?M pairs))"
      using True pair by auto
    show ?thesis
      unfolding eq
    proof (rule all_print [where Q = ?Q, OF e1 _ mono2])
      show "\<exists>evs. trace w' = trace ?w1 @ evs
        \<and> (\<forall>f\<in>set ?fs1 \<union> (set [] \<union> set (?M pairs)). ?Q f evs)
        \<and> (\<forall>p. p \<notin> fst ` set (written evs) \<longrightarrow> files w' p = files ?w1 p)
        \<and> (\<forall>p\<in>fst ` set (written evs). \<exists>t. files w' p = Some t \<and> (p, t) \<in> set (written evs))"
      proof (cases "int (length ?fs1) = batch_size (config c)")
        case False
        with Cons.prems pair True w1 have "process_loop c env service ip out n True verbose
            pairs ?fs1 nb ?w1 = Some (None, w')" by (simp add: Let_def)
        from Cons.IH [OF this] show ?thesis by simp
      next
        case full: True
        from Cons.prems pair True full w1 obtain bex w2 where
          batch: "process_batch c env ?w1 service ?fs1 ip out n True verbose = Some (bex, w2)"
          by (cases "process_batch c env ?w1 service ?fs1 ip out n True verbose")
             (auto simp: Let_def)
        let ?nb1 = "nb + length ?fs1"
        let ?evs3 = "[Print (Total_process ?nb1 (runtime env ?nb1))]"
        from Cons.prems pair True full batch w1 have bex: "bex = None"
          by (cases bex) (auto simp: Let_def)
        with Cons.prems pair True full batch w1 have
          loop: "process_loop c env service ip out n True verbose pairs [] ?nb1
                 (emit ?evs3 w2) = Some (None, w')"
          by (auto simp: Let_def split: if_splits)
        from batch bex have "process_batch c env ?w1 service ?fs1 ip out n True verbose
            = Some (None, w2)" by simp
        from process_batch_all [OF perm this] obtain bevs where
          b: "trace w2 = trace ?w1 @ bevs" "\<forall>f\<in>set ?fs1. ?Q f bevs"
          "\<forall>p. p \<notin> fst ` set (written bevs) \<longrightarrow> files w2 p = files ?w1 p"
          "\<forall>p\<in>fst ` set (written bevs). \<exists>t. files w2 p = Some t \<and> (p, t) \<in> set (written bevs)"
          by (rule four_parts)
        have rest: "\<exists>evs. trace w' = trace w2 @ evs
          \<and> (\<forall>f\<in>set [] \<union> set (?M pairs). ?Q f evs)
          \<and> (\<forall>p. p \<notin> fst ` set (written evs) \<longrightarrow> files w' p = files w2 p)
          \<and> (\<forall>p\<in>fst ` set (written evs). \<exists>t. files w' p = Some t \<and> (p, t) \<in> set (written evs))"
          by (rule all_print [where Q = ?Q and ?evs1.0 = ?evs3, OF _ Cons.IH [OF loop] mono2])
             simp
        show ?thesis
          by (rule all_compose [where Q = ?Q, OF b rest mono1 mono2])
      qed
    qed
  qed
qed

lemma dispatch_forced_length:
  "dispatch c env fs service ip out True input_files = Some (dex, results, evs)
     \<Longrightarrow> length results = length input_files"
proof (induction input_files arbitrary: dex results evs)
  case Nil
  then show ?case by simp
next
  case (Cons input_file input_files)
  obtain filename where o: "output_file_name (cwd env) input_file ip out = Inr filename"
    using output_file_name_total by blast
  with Cons.prems obtain r results' evs' where
    "dispatch c env fs service ip out True input_files = Some (dex, results', evs')"
    and "results = r # results'"
    by (auto split: option.splits)
  with Cons.IH show ?case by simp
qed

subsection \<open>Batches\<close>

text \<open>
  C3. A run over three PDF files with a batch size of two, where the request for the
  first file times out. Both files of the first batch are posted, then
  \<^verbatim>\<open>r.result()\<close> raises the worker's \<^verbatim>\<open>UnboundLocalError\<close> in the collecting loop:
  the text returned for the second file is not written, \<^verbatim>\<open>process\<close> ends with the
  exception, and the third file never reaches a batch.
\<close>

theorem transport_failure_aborts_run:
  "map_option (\<lambda>(ex, w). (ex, trace w, files w ''in/b.dataseer.tei.xml''))
     (process example_client failing_env \<lparr>files = Map.empty, trace = []\<rparr>
        ''processDataseerPDF'' ''in'' None None None None) =
   Some (Some UnboundLocalError,
         [Print (Total_process 0 0), Batch [''in/a.pdf'', ''in/b.pdf''],
          Post ''http://localhost:8060/service/processDataseerPDF'' ''in/a.pdf'' False,
          Print Request_timeout,
          Post ''http://localhost:8060/service/processDataseerPDF'' ''in/b.pdf'' False],
         None)"
  by code_simp

text \<open>
  C8. A run that an exception ends leaves matching files in no batch. With the request
  for \<open>in/a.pdf\<close> timing out, the \<^verbatim>\<open>UnboundLocalError\<close> of the worker ends the run
  after the first batch, and \<open>in/c.pdf\<close>, which matches, is never handed to
  \<^verbatim>\<open>process_batch\<close>. The same happens without any failing request when the rounded
  run time is zero: \<^verbatim>\<open>nb_total/runtime\<close> raises \<^verbatim>\<open>ZeroDivisionError\<close> after the first
  batch and \<open>in/sub/c.pdf.gz\<close> is left out.
\<close>

theorem aborted_run_omits_matching_files:
  "matching_files ''processDataseerPDF'' (walk failing_env ''in'')
     = [''in/a.pdf'', ''in/b.pdf'', ''in/c.pdf'']
   \<and> map_option (\<lambda>(ex, w). (ex, batches (trace w)))
       (process example_client failing_env empty_world
          ''processDataseerPDF'' ''in'' None None None None)
     = Some (Some UnboundLocalError, [[''in/a.pdf'', ''in/b.pdf'']])
   \<and> matching_files ''processDataseerPDF'' (walk quiet_env ''in'')
     = [''in/a.pdf'', ''in/b.pdf'', ''in/sub/c.pdf.gz'']
   \<and> map_option (\<lambda>(ex, w). (ex, batches (trace w)))
       (process example_client (quiet_env\<lparr>runtime := (\<lambda>k. 0)\<rparr>) empty_world
          ''processDataseerPDF'' ''in'' None None None None)
     = Some (Some ZeroDivisionError, [[''in/a.pdf'', ''in/b.pdf'']])"
  by code_simp

text \<open>
  What holds of the batches in every run that returns. The calls of \<^verbatim>\<open>process_batch\<close>,
  in their order, cut an initial part of the list of matching files into consecutive
  segments; when the run ends without an exception it is the whole list. Every batch but
  the last has exactly the configured size, no batch is empty, and with a positive
  configured size no batch is larger. The matching files are those whose name ends in
  \<open>.pdf\<close> or \<open>.pdf.gz\<close> for the PDF service and in \<open>.tei.xml\<close> for the TEI service.
\<close>

theorem enumeration_partitions_into_batches:
  assumes "process c env w service input_path out n force verbose = Some (ex, w')"
  shows "(\<exists>bs rest. batches (trace w') = batches (trace w) @ bs
       \<and> concat bs @ rest = matching_files service (walk env input_path)
       \<and> (ex = None \<longrightarrow> rest = [])
       \<and> (\<forall>b\<in>set (butlast bs). int (length b) = batch_size (config c))
       \<and> (\<forall>b\<in>set bs. b \<noteq> [])
       \<and> (0 < batch_size (config c) \<longrightarrow> (\<forall>b\<in>set bs. int (length b) \<le> batch_size (config c))))
     \<and> set (matching_files ''processDataseerPDF'' triples)
         = {dirpath @ ''/'' @ name | dirpath dirnames filenames name.
              (dirpath, dirnames, filenames) \<in> set triples \<and> name \<in> set filenames
              \<and> (endswith name ''.pdf.gz'' \<or> endswith name ''.pdf'')}
     \<and> set (matching_files ''processDataseerTEI'' triples)
         = {dirpath @ ''/'' @ name | dirpath dirnames filenames name.
              (dirpath, dirnames, filenames) \<in> set triples \<and> name \<in> set filenames
              \<and> endswith name ''.tei.xml''}"
proof (intro conjI)
  let ?w0 = "emit [Print (Total_process 0 0)] w"
  from assms have "process_loop c env service input_path out
       (case n of None \<Rightarrow> 10 | Some k \<Rightarrow> k)
       (case force of None \<Rightarrow> True | Some b \<Rightarrow> b)
       (case verbose of None \<Rightarrow> False | Some b \<Rightarrow> b)
       (walk_pairs (walk env input_path)) [] 0 ?w0 = Some (ex, w')"
    by (simp add: process_def)
  from process_loop_batches [OF this] obtain bs rest where
    "batches (trace w') = batches (trace ?w0) @ bs"
    "concat bs @ rest = matching_files service (walk env input_path)"
    "ex = None \<longrightarrow> rest = []"
    "\<forall>b\<in>set (butlast bs). int (length b) = batch_size (config c)"
    "\<forall>b\<in>set bs. b \<noteq> []"
    "0 < batch_size (config c) \<and> int (length ([]::string list)) < batch_size (config c)
       \<longrightarrow> (\<forall>b\<in>set bs. int (length b) \<le> batch_size (config c))"
    unfolding matching_files_def by auto
  then show "\<exists>bs rest. batches (trace w') = batches (trace w) @ bs
       \<and> concat bs @ rest = matching_files service (walk env input_path)
       \<and> (ex = None \<longrightarrow> rest = [])
       \<and> (\<forall>b\<in>set (butlast bs). int (length b) = batch_size (config c))
       \<and> (\<forall>b\<in>set bs. b \<noteq> [])
       \<and> (0 < batch_size (config c) \<longrightarrow> (\<forall>b\<in>set bs. int (length b) \<le> batch_size (config c)))"
    by (intro exI [of _ bs] exI [of _ rest]) (simp add: emit_def)
next
  show "set (matching_files ''processDataseerPDF'' triples)
         = {dirpath @ ''/'' @ name | dirpath dirnames filenames name.
              (dirpath, dirnames, filenames) \<in> set triples \<and> name \<in> set filenames
              \<and> (endswith name ''.pdf.gz'' \<or> endswith name ''.pdf'')}"
    by (auto simp: matching_files_def walk_pairs_def matches_service_def) force+
next
  show "set (matching_files ''processDataseerTEI'' triples)
         = {dirpath @ ''/'' @ name | dirpath dirnames filenames name.
              (dirpath, dirnames, filenames) \<in> set triples \<and> name \<in> set filenames
              \<and> endswith name ''.tei.xml''}"
    by (auto simp: matching_files_def walk_pairs_def matches_service_def) force+
qed

theorem enumeration_partitions_into_batches_witness:
  "\<exists>bs. batches (trace (snd (the (process example_client quiet_env empty_world
              ''processDataseerPDF'' ''in'' None None None None)))) = bs
     \<and> concat bs = [''in/a.pdf'', ''in/b.pdf'', ''in/sub/c.pdf.gz'']
     \<and> list_all (\<lambda>b. length b = 2) (butlast bs)
     \<and> list_all (\<lambda>b. b \<noteq> [] \<and> length b \<le> 2) bs"
proof -
  let ?run = "process example_client quiet_env empty_world
              ''processDataseerPDF'' ''in'' None None None None"
  have "case ?run of None \<Rightarrow> False | Some y \<Rightarrow> True" by code_simp
  then have run: "?run = Some (fst (the ?run), snd (the ?run))" by (rule some_pair)
  have ex: "fst (the ?run) = None" by code_simp
  have m: "matching_files ''processDataseerPDF'' (walk quiet_env ''in'')
             = [''in/a.pdf'', ''in/b.pdf'', ''in/sub/c.pdf.gz'']" by code_simp
  have b: "batch_size (config example_client) = 2"
    by (simp add: example_client_def new_client_def example_config_def)
  from enumeration_partitions_into_batches [OF run, where triples = "[]"]
  have "\<exists>bs rest. batches (trace (snd (the ?run))) = batches (trace empty_world) @ bs
       \<and> concat bs @ rest = matching_files ''processDataseerPDF'' (walk quiet_env ''in'')
       \<and> (fst (the ?run) = None \<longrightarrow> rest = [])
       \<and> (\<forall>b\<in>set (butlast bs). int (length b) = batch_size (config example_client))
       \<and> (\<forall>b\<in>set bs. b \<noteq> [])
       \<and> (0 < batch_size (config example_client)
            \<longrightarrow> (\<forall>b\<in>set bs. int (length b) \<le> batch_size (config example_client)))"
    by (rule conjunct1)
  with ex m b
  obtain bs where "batches (trace (snd (the ?run))) = batches (trace empty_world) @ bs"
    "concat bs = [''in/a.pdf'', ''in/b.pdf'', ''in/sub/c.pdf.gz'']"
    "\<forall>b\<in>set (butlast bs). int (length b) = 2"
    "\<forall>b\<in>set bs. b \<noteq> []" "\<forall>b\<in>set bs. int (length b) \<le> 2"
    by auto
  then show ?thesis
    by (intro exI [of _ bs]) (simp add: empty_world_def list_all_iff)
qed

text \<open>
  C7. Let \<open>p\<close> be the output path derived for the file \<open>f\<close>, with a file already at
  \<open>p\<close>, and let the force flag be off. Then the first loop of a batch submits nothing
  for \<open>f\<close>: no request for \<open>f\<close> and no result for \<open>f\<close> among the futures; a batch
  posts nothing for \<open>f\<close>, writes nothing to \<open>p\<close> and leaves the file at \<open>p\<close> as it
  was; and so does a whole run of \<^verbatim>\<open>process\<close> with \<^verbatim>\<open>force=False\<close>, in particular a
  second run over inputs whose outputs the first run wrote. (\<^verbatim>\<open>as_completed\<close> yields
  only futures it was given.)
\<close>

theorem existing_output_is_skipped:
  assumes sub: "\<forall>rs. set (as_completed env rs) \<subseteq> set rs"
    and out: "output_file_name (cwd env) f input_path out = Inr p"
    and there: "files w p \<noteq> None"
  shows "(dispatch c env (files w) service input_path out False input_files
            = Some (dex, results, devs)
          \<longrightarrow> f \<notin> set (posted devs) \<and> (\<forall>st body. Inr (f, st, body) \<notin> set results))
       \<and> (process_batch c env w service input_files input_path out n False verbose = Some (ex, w')
          \<longrightarrow> (\<exists>evs. trace w' = trace w @ evs \<and> f \<notin> set (posted evs)
                     \<and> p \<notin> fst ` set (written evs))
              \<and> files w' p = files w p)
       \<and> (process c env w service input_path out n' (Some False) verbose' = Some (ex2, w2)
          \<longrightarrow> (\<exists>evs. trace w2 = trace w @ evs \<and> f \<notin> set (posted evs)
                     \<and> p \<notin> fst ` set (written evs))
              \<and> files w2 p = files w p)"
proof (intro conjI impI)
  assume d: "dispatch c env (files w) service input_path out False input_files
            = Some (dex, results, devs)"
  have "\<not> (f \<in> set (posted devs) \<or> (\<exists>st txt. Inr (f, st, txt) \<in> set results))"
  proof
    assume "f \<in> set (posted devs) \<or> (\<exists>st txt. Inr (f, st, txt) \<in> set results)"
    with dispatch_events [OF d] obtain q where
      "output_file_name (cwd env) f input_path out = Inr q" "files w q = None" by blast
    with out there show False by simp
  qed
  then show "f \<notin> set (posted devs)" and "\<forall>st body. Inr (f, st, body) \<notin> set results"
    by blast+
next
  have use: "(\<exists>evs. trace v = trace w @ evs \<and> f \<notin> set (posted evs)
                     \<and> p \<notin> fst ` set (written evs)) \<and> files v p = files w p"
    if "\<exists>evs. trace v = trace w @ evs
       \<and> (\<forall>g\<in>set (posted evs). \<exists>p. output_file_name (cwd env) g input_path out = Inr p
              \<and> files w p = None)
       \<and> (\<forall>p t. (p, t) \<in> set (written evs) \<longrightarrow> files w p = None)
       \<and> (\<forall>p. files w p \<noteq> None \<longrightarrow> files v p = files w p)" for v
  proof -
    from that obtain evs where e: "trace v = trace w @ evs"
      and po: "\<forall>g\<in>set (posted evs). \<exists>p. output_file_name (cwd env) g input_path out = Inr p
              \<and> files w p = None"
      and wr: "\<forall>p t. (p, t) \<in> set (written evs) \<longrightarrow> files w p = None"
      and fl: "\<forall>p. files w p \<noteq> None \<longrightarrow> files v p = files w p"
      by blast
    have 1: "f \<notin> set (posted evs)"
    proof
      assume "f \<in> set (posted evs)"
      with po obtain q where "output_file_name (cwd env) f input_path out = Inr q"
        "files w q = None" by blast
      with out there show False by simp
    qed
    have 2: "p \<notin> fst ` set (written evs)"
    proof
      assume "p \<in> fst ` set (written evs)"
      then obtain t where "(p, t) \<in> set (written evs)" by auto
      with wr have "files w p = None" by blast
      with there show False by simp
    qed
    from e 1 2 fl there show ?thesis by blast
  qed
  {
    assume "process_batch c env w service input_files input_path out n False verbose
              = Some (ex, w')"
    from use [OF process_batch_skip [OF sub this]]
    show "\<exists>evs. trace w' = trace w @ evs \<and> f \<notin> set (posted evs)
            \<and> p \<notin> fst ` set (written evs)"
      and "files w' p = files w p" by blast+
  }
  {
    let ?w0 = "emit [Print (Total_process 0 0)] w"
    assume "process c env w service input_path out n' (Some False) verbose' = Some (ex2, w2)"
    then have "process_loop c env service input_path out
       (case n' of None \<Rightarrow> 10 | Some k \<Rightarrow> k) False
       (case verbose' of None \<Rightarrow> False | Some b \<Rightarrow> b)
       (walk_pairs (walk env input_path)) [] 0 ?w0 = Some (ex2, w2)"
      by (simp add: process_def)
    from process_loop_skip [OF sub this]
    have "\<exists>evs. trace w2 = trace w @ evs
       \<and> (\<forall>g\<in>set (posted evs). \<exists>p. output_file_name (cwd env) g input_path out = Inr p
              \<and> files w p = None)
       \<and> (\<forall>p t. (p, t) \<in> set (written evs) \<longrightarrow> files w p = None)
       \<and> (\<forall>p. files w p \<noteq> None \<longrightarrow> files w2 p = files w p)"
      by (intro skip_print [where ?evs1.0 = "[Print (Total_process 0 0)]" and w = w]) simp_all
    from use [OF this]
    show "\<exists>evs. trace w2 = trace w @ evs \<and> f \<notin> set (posted evs)
            \<and> p \<notin> fst ` set (written evs)"
      and "files w2 p = files w p" by blast+
  }
qed

theorem existing_output_is_skipped_witness:
  "''in/a.pdf'' \<notin> set (posted (trace (snd (the (process example_client quiet_env old_world
        ''processDataseerPDF'' ''in'' None None (Some False) None)))))
   \<and> ''in/a.dataseer.tei.xml'' \<notin> fst ` set (written (trace (snd (the (process example_client
        quiet_env old_world ''processDataseerPDF'' ''in'' None None (Some False) None)))))
   \<and> files (snd (the (process example_client quiet_env old_world
        ''processDataseerPDF'' ''in'' None None (Some False) None))) ''in/a.dataseer.tei.xml''
      = Some ''old''"
proof -
  let ?run = "process example_client quiet_env old_world
        ''processDataseerPDF'' ''in'' None None (Some False) None"
  have "case ?run of None \<Rightarrow> False | Some y \<Rightarrow> True" by code_simp
  then have run: "?run = Some (fst (the ?run), snd (the ?run))" by (rule some_pair)
  have sub: "\<forall>rs. set (as_completed quiet_env rs) \<subseteq> set rs" by (simp add: quiet_env_def)
  have out: "output_file_name (cwd quiet_env) ''in/a.pdf'' ''in'' None
               = Inr ''in/a.dataseer.tei.xml''" by code_simp
  have there: "files old_world ''in/a.dataseer.tei.xml'' \<noteq> None" by (simp add: old_world_def)
  have old: "files old_world ''in/a.dataseer.tei.xml'' = Some ''old''"
    by (simp add: old_world_def)
  have tr: "trace old_world = []" by (simp add: old_world_def)
  from existing_output_is_skipped [OF sub out there, where ?w2.0 = "snd (the ?run)"
      and ?ex2.0 = "fst (the ?run)" and c = example_client and service = "''processDataseerPDF''"
      and n' = None and verbose' = None] run
  have "(\<exists>evs. trace (snd (the ?run)) = trace old_world @ evs
            \<and> ''in/a.pdf'' \<notin> set (posted evs)
            \<and> ''in/a.dataseer.tei.xml'' \<notin> fst ` set (written evs))
        \<and> files (snd (the ?run)) ''in/a.dataseer.tei.xml''
            = files old_world ''in/a.dataseer.tei.xml''"
    by blast
  then show ?thesis unfolding tr old by auto
qed

text \<open>
  C10. A call of \<^verbatim>\<open>process\<close> that leaves \<^verbatim>\<open>force\<close> out is the call with
  \<^verbatim>\<open>force=True\<close>. With the flag on, the first loop of a batch submits one task for
  every input file, whatever files exist. In a run without the flag that ends without an
  exception, every matching file has been posted to the service, and for every matching
  file whose request was answered with 200, the text of the answer has been written to
  the derived output path when that path can be written, whether or not a file was there
  before; a path written during the run holds one of the texts written to it.
  (\<^verbatim>\<open>as_completed\<close> yields every future it was given.)
\<close>

theorem force_defaults_to_true:
  "process c env w service input_path out n None verbose
     = process c env w service input_path out n (Some True) verbose
   \<and> (dispatch c env fs service input_path out True input_files = Some (dex, results, devs)
      \<longrightarrow> length results = length input_files)
   \<and> ((\<forall>rs. set rs \<subseteq> set (as_completed env rs))
       \<and> process c env w service input_path out n None verbose = Some (None, w')
      \<longrightarrow> (\<exists>evs. trace w' = trace w @ evs
            \<and> (\<forall>f\<in>set (matching_files service (walk env input_path)).
                 f \<in> set (posted evs)
                 \<and> (\<forall>body rest p. replies env f = Response 200 body # rest
                       \<and> output_file_name (cwd env) f input_path out = Inr p
                       \<and> \<not> unwritable env p
                     \<longrightarrow> (p, body) \<in> set (written evs)))
            \<and> (\<forall>p\<in>fst ` set (written evs).
                 \<exists>t. files w' p = Some t \<and> (p, t) \<in> set (written evs))))"
proof (intro conjI impI)
  show "process c env w service input_path out n None verbose
     = process c env w service input_path out n (Some True) verbose"
    by (simp add: process_def)
next
  assume "dispatch c env fs service input_path out True input_files = Some (dex, results, devs)"
  then show "length results = length input_files" by (rule dispatch_forced_length)
next
  let ?Q = "\<lambda>f evs. f \<in> set (posted evs)
              \<and> (\<forall>body rest p. replies env f = Response 200 body # rest
                    \<and> output_file_name (cwd env) f input_path out = Inr p \<and> \<not> unwritable env p
                    \<longrightarrow> (p, body) \<in> set (written evs))"
  assume a: "(\<forall>rs. set rs \<subseteq> set (as_completed env rs))
       \<and> process c env w service input_path out n None verbose = Some (None, w')"
  then have perm: "\<forall>rs. set rs \<subseteq> set (as_completed env rs)" by (rule conjunct1)
  from a have "process_loop c env service input_path out
       (case n of None \<Rightarrow> 10 | Some k \<Rightarrow> k) True
       (case verbose of None \<Rightarrow> False | Some b \<Rightarrow> b)
       (walk_pairs (walk env input_path)) [] 0 (emit [Print (Total_process 0 0)] w)
       = Some (None, w')"
    by (simp add: process_def)
  from process_loop_all [OF perm this]
  have inner: "\<exists>evs. trace w' = trace (emit [Print (Total_process 0 0)] w) @ evs
        \<and> (\<forall>f\<in>set [] \<union> set (matching_files service (walk env input_path)). ?Q f evs)
        \<and> (\<forall>p. p \<notin> fst ` set (written evs)
              \<longrightarrow> files w' p = files (emit [Print (Total_process 0 0)] w) p)
        \<and> (\<forall>p\<in>fst ` set (written evs). \<exists>t. files w' p = Some t \<and> (p, t) \<in> set (written evs))"
    unfolding matching_files_def .
  have mono2: "?Q f (a @ b)" if "?Q f b" for f a b using that by auto
  have "\<exists>evs. trace w' = trace w @ evs
        \<and> (\<forall>f\<in>set [] \<union> set (matching_files service (walk env input_path)). ?Q f evs)
        \<and> (\<forall>p. p \<notin> fst ` set (written evs) \<longrightarrow> files w' p = files w p)
        \<and> (\<forall>p\<in>fst ` set (written evs). \<exists>t. files w' p = Some t \<and> (p, t) \<in> set (written evs))"
    by (rule all_print [where Q = ?Q and ?evs1.0 = "[Print (Total_process 0 0)]",
          OF _ inner mono2]) simp
  then obtain evs where "trace w' = trace w @ evs"
    and "\<forall>f\<in>set [] \<union> set (matching_files service (walk env input_path)). ?Q f evs"
    and "\<forall>p. p \<notin> fst ` set (written evs) \<longrightarrow> files w' p = files w p"
    and "\<forall>p\<in>fst ` set (written evs). \<exists>t. files w' p = Some t \<and> (p, t) \<in> set (written evs)"
    by (rule four_parts)
  then show "\<exists>evs. trace w' = trace w @ evs
            \<and> (\<forall>f\<in>set (matching_files service (walk env input_path)).
                 f \<in> set (posted evs)
                 \<and> (\<forall>body rest p. replies env f = Response 200 body # rest
                       \<and> output_file_name (cwd env) f input_path out = Inr p
                       \<and> \<not> unwritable env p
                     \<longrightarrow> (p, body) \<in> set (written evs)))
            \<and> (\<forall>p\<in>fst ` set (written evs).
                 \<exists>t. files w' p = Some t \<and> (p, t) \<in> set (written evs))"
    by (intro exI [of _ evs]) simp
qed

theorem force_defaults_to_true_witness:
  "''in/a.pdf'' \<in> set (posted (trace (snd (the (process example_client quiet_env old_world
        ''processDataseerPDF'' ''in'' None None None None)))))
   \<and> (''in/a.dataseer.tei.xml'', ''<TEI>in/a.pdf</TEI>'')
       \<in> set (written (trace (snd (the (process example_client quiet_env old_world
        ''processDataseerPDF'' ''in'' None None None None)))))
   \<and> files old_world ''in/a.dataseer.tei.xml'' = Some ''old''"
proof -
  let ?run = "process example_client quiet_env old_world
        ''processDataseerPDF'' ''in'' None None None None"
  have "case ?run of None \<Rightarrow> False | Some y \<Rightarrow> True" by code_simp
  then have run: "?run = Some (fst (the ?run), snd (the ?run))" by (rule some_pair)
  have ex: "fst (the ?run) = None" by code_simp
  have perm: "\<forall>rs. set rs \<subseteq> set (as_completed quiet_env rs)" by (simp add: quiet_env_def)
  have m: "''in/a.pdf'' \<in> set (matching_files ''processDataseerPDF'' (walk quiet_env ''in''))"
    by code_simp
  have out: "output_file_name (cwd quiet_env) ''in/a.pdf'' ''in'' None
               = Inr ''in/a.dataseer.tei.xml''" by code_simp
  have rep: "replies quiet_env ''in/a.pdf'' = Response 200 ''<TEI>in/a.pdf</TEI>'' # []"
    by (simp add: quiet_env_def)
  have unw: "\<not> unwritable quiet_env ''in/a.dataseer.tei.xml''" by (simp add: quiet_env_def)
  have old: "files old_world ''in/a.dataseer.tei.xml'' = Some ''old''"
    by (simp add: old_world_def)
  have tr: "trace old_world = []" by (simp add: old_world_def)
  from run ex have run': "?run = Some (None, snd (the ?run))" by simp
  note inst = force_defaults_to_true [where c = example_client and env = quiet_env and w = old_world
      and service = "''processDataseerPDF''" and input_path = "''in''" and out = None
      and n = None and verbose = None and w' = "snd (the ?run)" and input_files = "[]"
      and fs = Map.empty and dex = None and results = "[]" and devs = "[]"]
  from mp [OF inst [THEN conjunct2, THEN conjunct2] conjI [OF perm run']]
  have "\<exists>evs. trace (snd (the ?run)) = trace old_world @ evs
            \<and> (\<forall>f\<in>set (matching_files ''processDataseerPDF'' (walk quiet_env ''in'')).
                 f \<in> set (posted evs)
                 \<and> (\<forall>body rest p. replies quiet_env f = Response 200 body # rest
                       \<and> output_file_name (cwd quiet_env) f ''in'' None = Inr p
                       \<and> \<not> unwritable quiet_env p
                     \<longrightarrow> (p, body) \<in> set (written evs)))
            \<and> (\<forall>p\<in>fst ` set (written evs).
                 \<exists>t. files (snd (the ?run)) p = Some t \<and> (p, t) \<in> set (written evs))"
    .
  then obtain evs where e: "trace (snd (the ?run)) = evs"
    and q: "\<forall>f\<in>set (matching_files ''processDataseerPDF'' (walk quiet_env ''in'')).
                 f \<in> set (posted evs)
                 \<and> (\<forall>body rest p. replies quiet_env f = Response 200 body # rest
                       \<and> output_file_name (cwd quiet_env) f ''in'' None = Inr p
                       \<and> \<not> unwritable quiet_env p
                     \<longrightarrow> (p, body) \<in> set (written evs))"
    unfolding tr by auto
  from q m have 1: "''in/a.pdf'' \<in> set (posted evs)"
    and 2: "\<forall>body rest p. replies quiet_env ''in/a.pdf'' = Response 200 body # rest
                       \<and> output_file_name (cwd quiet_env) ''in/a.pdf'' ''in'' None = Inr p
                       \<and> \<not> unwritable quiet_env p
                     \<longrightarrow> (p, body) \<in> set (written evs)"
    by blast+
  from 2 rep out unw have "(''in/a.dataseer.tei.xml'', ''<TEI>in/a.pdf</TEI>'') \<in> set (written evs)"
    by blast
  with 1 old show ?thesis unfolding e by simp
qed

end
